theory Spec2Isabelle
  imports Main
begin

section \<open>Thompson's construction: the automaton, its builder, matcher and renderer\<close>

text \<open>
  A shallow embedding of \<^verbatim>\<open>RegularExpression.cpp\<close> and \<^verbatim>\<open>RegularExpression.h\<close>.
  The C++ \<^verbatim>\<open>int\<close> indices are modelled as unbounded \<^typ>\<open>int\<close>: an index only grows by
  two per consumed letter, star or bar, so it stays far below \<open>2^31\<close> for every
  expression of fewer than \<open>2^30\<close> characters. Undefined behaviour of the C++ code
  (\<^verbatim>\<open>back()\<close> of an empty vector, \<^verbatim>\<open>operator[]\<close> out of range) is the value \<open>None\<close>.
\<close>

subsection \<open>Data model\<close>

text \<open>\<^verbatim>\<open>struct State { char character = '\0'; int first_outgoing = -1; int second_outgoing = -1; }\<close>\<close>

record State =
  character :: char
  first_outgoing :: int
  second_outgoing :: int

text \<open>The default-initialised state \<^verbatim>\<open>State{}\<close>.\<close>

definition State_default :: State where
  "State_default = \<lparr>character = CHR 0x00, first_outgoing = - 1, second_outgoing = - 1\<rparr>"

text \<open>The members \<^verbatim>\<open>m_automaton\<close> and \<^verbatim>\<open>m_initial_state\<close> of the class.\<close>

record RegularExpression =
  m_automaton :: "State list"
  m_initial_state :: int

subsection \<open>Character classes and the input stream\<close>

text \<open>\<^verbatim>\<open>std::isalpha\<close> and \<^verbatim>\<open>std::islower\<close> in the default "C" locale.\<close>

definition isalpha :: "char \<Rightarrow> bool" where
  "isalpha c = ((65 \<le> (of_char c :: nat) \<and> (of_char c :: nat) \<le> 90)
              \<or> (97 \<le> (of_char c :: nat) \<and> (of_char c :: nat) \<le> 122))"

definition islower :: "char \<Rightarrow> bool" where
  "islower c = (97 \<le> (of_char c :: nat) \<and> (of_char c :: nat) \<le> 122)"

text \<open>
  The \<^verbatim>\<open>std::istringstream\<close> is the list of characters not yet read. \<^verbatim>\<open>peek()\<close> gives
  the next character or end-of-file (\<open>None\<close>); \<^verbatim>\<open>get()\<close> drops one character and
  leaves an exhausted stream exhausted.
\<close>

definition peek :: "string \<Rightarrow> char option" where
  "peek s = (case s of [] \<Rightarrow> None | c # _ \<Rightarrow> Some c)"

definition get :: "string \<Rightarrow> string" where
  "get s = tl s"

text \<open>A character test applied to \<^verbatim>\<open>peek()\<close>: end-of-file satisfies none.\<close>

definition peek_is :: "(char \<Rightarrow> bool) \<Rightarrow> string \<Rightarrow> bool" where
  "peek_is p s = (case peek s of None \<Rightarrow> False | Some c \<Rightarrow> p c)"

subsection \<open>Builder: the recursive-descent parser\<close>

text \<open>\<^verbatim>\<open>automaton.back().first_outgoing = v\<close> and \<^verbatim>\<open>automaton.back().second_outgoing = v\<close>
  on a non-empty vector; the callers below return \<open>None\<close> on an empty one.\<close>

definition back_first :: "State list \<Rightarrow> int \<Rightarrow> State list" where
  "back_first automaton v = butlast automaton @ [(last automaton)\<lparr>first_outgoing := v\<rparr>]"

definition back_second :: "State list \<Rightarrow> int \<Rightarrow> State list" where
  "back_second automaton v = butlast automaton @ [(last automaton)\<lparr>second_outgoing := v\<rparr>]"

text \<open>
  A parser call returns the sub-automaton together with the three things it
  changes through its reference parameters: the stream, \<^verbatim>\<open>next_index\<close> and
  \<^verbatim>\<open>start_index\<close>.
\<close>

type_synonym parsed = "State list \<times> string \<times> int \<times> int"

function expr :: "string \<Rightarrow> int \<Rightarrow> int \<Rightarrow> parsed option"
  and term_re :: "string \<Rightarrow> int \<Rightarrow> int \<Rightarrow> parsed option"
  and fact_re :: "string \<Rightarrow> int \<Rightarrow> int \<Rightarrow> parsed option"
where
  "expr expression next_index start_index =
     (case term_re expression next_index start_index of
        None \<Rightarrow> None
      | Some (automaton, expression1, next_index1, front_index) \<Rightarrow>
          if peek expression1 = Some CHR ''|'' then
            (case expr (get expression1) next_index1 front_index of
               None \<Rightarrow> None
             | Some (automaton_alternative, expression2, next_index2, alternative_front_index) \<Rightarrow>
                 if automaton = [] \<or> automaton_alternative = [] then None
                 else Some (back_first automaton (next_index2 + 1)
                            @ back_first automaton_alternative (next_index2 + 1)
                            @ [\<lparr>character = CHR 0x00, first_outgoing = front_index,
                                 second_outgoing = alternative_front_index\<rparr>,
                               State_default],
                            expression2, next_index2 + 2, next_index2))
          else Some (automaton, expression1, next_index1, front_index))"
| "term_re expression next_index start_index =
     (case fact_re expression next_index start_index of
        None \<Rightarrow> None
      | Some (automaton, expression1, next_index1, front_index) \<Rightarrow>
          if peek expression1 = Some CHR ''('' \<or> peek_is islower expression1 then
            (case term_re expression1 next_index1 front_index of
               None \<Rightarrow> None
             | Some (automaton_concatenation, expression2, next_index2, start_index2) \<Rightarrow>
                 if automaton = [] then None
                 else Some (back_first automaton start_index2 @ automaton_concatenation,
                            expression2, next_index2, front_index))
          else Some (automaton, expression1, next_index1, front_index))"
| "fact_re expression next_index start_index =
     (if peek expression = Some CHR ''('' \<or> peek_is isalpha expression then
        (case (if peek expression = Some CHR ''('' then
                 (case expr (get expression) next_index start_index of
                    None \<Rightarrow> None
                  | Some (automaton, expression1, next_index1, start_index1) \<Rightarrow>
                      Some (automaton, get expression1, next_index1, start_index1))
               else if peek_is isalpha expression then
                 Some ([\<lparr>character = hd expression, first_outgoing = next_index + 1,
                          second_outgoing = - 1\<rparr>,
                        State_default],
                       get expression, next_index + 2, next_index)
               else Some ([], expression, next_index, start_index)) of
           None \<Rightarrow> None
         | Some (automaton, expression2, next_index2, start_index2) \<Rightarrow>
             if peek expression2 = Some CHR ''*'' then
               (if automaton = [] then None
                else Some (back_second (back_first automaton start_index2) (next_index2 + 1)
                           @ [\<lparr>character = CHR 0x00, first_outgoing = start_index2,
                                second_outgoing = next_index2 + 1\<rparr>,
                              State_default],
                           get expression2, next_index2 + 2, next_index2))
             else Some (automaton, expression2, next_index2, start_index2))
      else Some ([], expression, next_index, start_index))"
  by pat_completeness auto

text \<open>
  The recursion is nested: \<open>term_re\<close> continues on the stream that \<open>fact_re\<close>
  leaves. Termination therefore needs, on the domain of the functions, that no
  parser lengthens the stream and that \<open>fact_re\<close> shortens it whenever it sees a
  parenthesis or a letter.
\<close>

lemma parse_rest_le_dom:
  "expr_term_re_fact_re_dom (Inl (e, n, s)) \<Longrightarrow>
     (\<forall>a r n' s'. expr e n s = Some (a, r, n', s') \<longrightarrow> length r \<le> length e)"
  "expr_term_re_fact_re_dom (Inr (Inl (e, n, s))) \<Longrightarrow>
     (\<forall>a r n' s'. term_re e n s = Some (a, r, n', s') \<longrightarrow> length r \<le> length e)"
  "expr_term_re_fact_re_dom (Inr (Inr (e, n, s))) \<Longrightarrow>
     (\<forall>a r n' s'. fact_re e n s = Some (a, r, n', s') \<longrightarrow>
        length r \<le> length e
        \<and> (peek e = Some CHR ''('' \<or> peek_is isalpha e \<longrightarrow> length r < length e))"
proof (induct rule: expr_term_re_fact_re.pinduct)
  case (1 expression next_index start_index)
  note ih_term = 1(2) and ih_alt = 1(3)[OF _ refl refl refl]
  show ?case
    using ih_term ih_alt
    by (fastforce simp: expr.psimps[OF 1(1)] get_def peek_def
        split: option.splits prod.splits if_splits list.splits)
next
  case (2 expression next_index start_index)
  note ih_fact = 2(2) and ih_cat = 2(3)[OF _ refl refl refl]
  show ?case
    using ih_fact ih_cat
    by (fastforce simp: term_re.psimps[OF 2(1)] get_def peek_def peek_is_def
        split: option.splits prod.splits if_splits list.splits)
next
  case (3 expression next_index start_index)
  show ?case
  proof (cases "peek expression = Some CHR ''(''")
    case True
    with 3(2) have ih: "\<forall>a r n' s'.
        expr (get expression) next_index start_index = Some (a, r, n', s')
        \<longrightarrow> length r \<le> length (get expression)"
      by simp
    from True have "length (get expression) < length expression"
      by (auto simp: peek_def get_def split: list.splits)
    with ih True show ?thesis
      by (fastforce simp: fact_re.psimps[OF 3(1)] get_def split: option.splits if_splits)
  next
    case False
    then show ?thesis
      by (auto simp: fact_re.psimps[OF 3(1)] get_def peek_def peek_is_def
          split: list.splits if_splits)
  qed
qed

lemma islower_isalpha: "islower c \<Longrightarrow> isalpha c"
  by (simp add: islower_def isalpha_def)

lemma fact_rest_lt_dom:
  assumes dom: "expr_term_re_fact_re_dom (Inr (Inr (e, n, s)))"
    and res: "fact_re e n s = Some (a, r, n', s')"
    and cont: "peek r = Some CHR ''('' \<or> peek_is islower r"
  shows "length r < length e"
proof (cases "peek e = Some CHR ''('' \<or> peek_is isalpha e")
  case True
  with parse_rest_le_dom(3)[OF dom] res show ?thesis by blast
next
  case False
  with res have "r = e" by (simp add: fact_re.psimps[OF dom])
  with cont False show ?thesis
    by (auto simp: peek_is_def islower_isalpha split: option.splits)
qed

termination expr
proof (relation "measures
    [\<lambda>x. case x of Inl (e, _, _) \<Rightarrow> length e
                 | Inr (Inl (e, _, _)) \<Rightarrow> length e
                 | Inr (Inr (e, _, _)) \<Rightarrow> length e,
     \<lambda>x. case x of Inl _ \<Rightarrow> 2 | Inr (Inl _) \<Rightarrow> 1 | Inr (Inr _) \<Rightarrow> 0]", goal_cases)
  case 1
  show ?case by simp
next
  case (2 expression next_index start_index)
  show ?case by simp
next
  case (3 expression next_index start_index x2 x y xa ya xb yb)
  then have "term_re expression next_index start_index = Some (x, xa, xb, yb)" by simp
  with parse_rest_le_dom(2)[OF 3(6)] have "length xa \<le> length expression" by blast
  moreover from 3(5) have "length (get xa) < length xa"
    by (auto simp: peek_def get_def split: list.splits)
  ultimately show ?case by simp
next
  case (4 expression next_index start_index)
  show ?case by simp
next
  case (5 expression next_index start_index x2 x y xa ya xb yb)
  then have "fact_re expression next_index start_index = Some (x, xa, xb, yb)" by simp
  from fact_rest_lt_dom[OF 5(6) this 5(5)] show ?case by simp
next
  case (6 expression next_index start_index)
  then show ?case by (auto simp: peek_def get_def split: list.splits)
qed

declare expr.simps [simp del] term_re.simps [simp del] fact_re.simps [simp del]

text \<open>
  The constructor \<^verbatim>\<open>RegularExpression(std::string_view expression)\<close>. The stream is
  built from \<^verbatim>\<open>expression.data()\<close>, a C string, so it ends at the first NUL
  character. Whatever the parser leaves unread is ignored.
\<close>

definition build :: "string \<Rightarrow> RegularExpression option" where
  "build expression =
     (case expr (takeWhile (\<lambda>c. c \<noteq> CHR 0x00) expression) 0 0 of
        None \<Rightarrow> None
      | Some (automaton, rest, next_index, start_index) \<Rightarrow>
          Some \<lparr>m_automaton = automaton, m_initial_state = start_index\<rparr>)"

subsection \<open>Matcher: epsilon closure and simulation\<close>

text \<open>
  A \<^verbatim>\<open>std::set<int>\<close> is the ascending list of its elements, which is also the order
  in which a range-based \<^verbatim>\<open>for\<close> visits them. \<open>set_insert\<close> is \<^verbatim>\<open>insert\<close>,
  \<open>set_count\<close> is \<^verbatim>\<open>count\<close>.
\<close>

definition set_insert :: "int \<Rightarrow> int list \<Rightarrow> int list" where
  "set_insert x xs = (if x \<in> set xs then xs else insort x xs)"

definition set_count :: "int list \<Rightarrow> int \<Rightarrow> nat" where
  "set_count xs x = (if x \<in> set xs then 1 else 0)"

text \<open>\<^verbatim>\<open>m_automaton[i]\<close> is defined only for \<open>0 \<le> i < size\<close>; the functions below test
  \<open>in_range\<close> before every read and return \<open>None\<close> where the C++ read is out of range.\<close>

definition in_range :: "State list \<Rightarrow> int \<Rightarrow> bool" where
  "in_range automaton i = (0 \<le> i \<and> i < int (length automaton))"

definition at :: "State list \<Rightarrow> int \<Rightarrow> State" where
  "at automaton i = automaton ! nat i"

lemma set_set_insert [simp]: "set (set_insert x xs) = insert x (set xs)"
  by (simp add: set_insert_def set_insort_key insert_absorb)

text \<open>
  \<^verbatim>\<open>traverseEmptyTransitionsRecursive(current_states, new_states)\<close>. The loop over
  \<^verbatim>\<open>current_states\<close> is the recursion on the list. \<^verbatim>\<open>new_states\<close> is passed by reference:
  a recursive call updates it in place and returns a copy, so the \<^verbatim>\<open>merge\<close> of that
  copy changes nothing and the value after the call is the value returned.
\<close>

function traverseEmptyTransitionsRecursive ::
  "State list \<Rightarrow> int list \<Rightarrow> int list \<Rightarrow> int list option"
where
  "traverseEmptyTransitionsRecursive automaton [] new_states = Some new_states"
| "traverseEmptyTransitionsRecursive automaton (state # rest) new_states =
     (if \<not> in_range automaton state then None
      else
        let new_states1 = set_insert state new_states in
        if character (at automaton state) = CHR 0x00 then
          (case (if first_outgoing (at automaton state) \<noteq> - 1
                    \<and> set_count new_states1 (first_outgoing (at automaton state)) = 0
                 then traverseEmptyTransitionsRecursive automaton
                        [first_outgoing (at automaton state)] new_states1
                 else Some new_states1) of
             None \<Rightarrow> None
           | Some new_states2 \<Rightarrow>
               (case (if second_outgoing (at automaton state) \<noteq> - 1
                         \<and> set_count new_states2 (second_outgoing (at automaton state)) = 0
                      then traverseEmptyTransitionsRecursive automaton
                             [second_outgoing (at automaton state)] new_states2
                      else Some new_states2) of
                  None \<Rightarrow> None
                | Some new_states3 \<Rightarrow>
                    traverseEmptyTransitionsRecursive automaton rest new_states3))
        else traverseEmptyTransitionsRecursive automaton rest new_states1)"
  by pat_completeness auto

text \<open>
  The second recursive call and the rest of the loop run on the set returned by
  the first, so termination needs that a call only adds to \<^verbatim>\<open>new_states\<close>.
\<close>

lemma traverse_mono_dom:
  "traverseEmptyTransitionsRecursive_dom (automaton, states, new_states) \<Longrightarrow>
   traverseEmptyTransitionsRecursive automaton states new_states = Some r \<Longrightarrow>
   set new_states \<subseteq> set r"
proof (induct automaton states new_states arbitrary: r
    rule: traverseEmptyTransitionsRecursive.pinduct)
  case (1 automaton new_states)
  then show ?case by (simp add: traverseEmptyTransitionsRecursive.psimps)
next
  case (2 automaton state rest new_states)
  let ?ns1 = "set_insert state new_states"
  let ?f = "first_outgoing (at automaton state)"
  let ?s = "second_outgoing (at automaton state)"
  let ?c1 = "?f \<noteq> - 1 \<and> set_count ?ns1 ?f = 0"
  let ?r1 = "if ?c1 then traverseEmptyTransitionsRecursive automaton [?f] ?ns1 else Some ?ns1"
  note unfold = traverseEmptyTransitionsRecursive.psimps(2)[OF 2(1)]
  from "2.prems" have inr: "\<not> \<not> in_range automaton state"
    by (simp add: unfold split: if_splits)
  show ?case
  proof (cases "character (at automaton state) = CHR 0x00")
    case True
    from "2.prems" inr True obtain ns2 ns3 where
      e1: "?r1 = Some ns2"
      and e2: "(if ?s \<noteq> - 1 \<and> set_count ns2 ?s = 0
                then traverseEmptyTransitionsRecursive automaton [?s] ns2 else Some ns2) = Some ns3"
      and e3: "traverseEmptyTransitionsRecursive automaton rest ns3 = Some r"
      by (simp add: unfold Let_def split: option.splits)
    have s1: "set ?ns1 \<subseteq> set ns2"
    proof (cases ?c1)
      case c: True
      with e1 have "traverseEmptyTransitionsRecursive automaton [?f] ?ns1 = Some ns2" by simp
      from 2(2)[OF inr refl True c this] show ?thesis .
    next
      case False
      with e1 show ?thesis by simp
    qed
    have s2: "set ns2 \<subseteq> set ns3"
    proof (cases "?s \<noteq> - 1 \<and> set_count ns2 ?s = 0")
      case c: True
      with e2 have "traverseEmptyTransitionsRecursive automaton [?s] ns2 = Some ns3" by simp
      from 2(3)[OF inr refl True e1 c this] show ?thesis .
    next
      case False
      with e2 show ?thesis by simp
    qed
    have s3: "set ns3 \<subseteq> set r"
      by (rule 2(4)[OF inr refl True e1 e2 e3])
    from s1 s2 s3 show ?thesis by auto
  next
    case False
    with "2.prems" inr have "traverseEmptyTransitionsRecursive automaton rest ?ns1 = Some r"
      by (simp add: unfold Let_def)
    from 2(5)[OF inr refl False this] show ?thesis by auto
  qed
qed

text \<open>
  The recursion is well-founded by the visited-set guard: a call on a state outside
  \<^verbatim>\<open>new_states\<close> inserts it, which lowers the number of states of the automaton that
  are not yet in \<^verbatim>\<open>new_states\<close>; the loop itself shortens the list.
\<close>

abbreviation unvisited :: "State list \<Rightarrow> int list \<Rightarrow> nat" where
  "unvisited automaton new_states \<equiv> card ({i. in_range automaton i} - set new_states)"

abbreviation traverse_order :: "((State list \<times> int list \<times> int list) \<times> (State list \<times> int list \<times> int list)) set" where
  "traverse_order \<equiv> measures
     [\<lambda>(automaton, states, new_states). unvisited automaton new_states,
      \<lambda>(automaton, states, new_states).
         (case states of [] \<Rightarrow> 0 | s # _ \<Rightarrow> if s \<in> set new_states then 1 else 0),
      \<lambda>(automaton, states, new_states). length states]"

lemma finite_in_range: "finite {i. in_range automaton i}"
proof -
  have "{i. in_range automaton i} = {0..<int (length automaton)}"
    by (auto simp: in_range_def)
  then show ?thesis by simp
qed

lemma unvisited_le:
  "set ns \<subseteq> set ns' \<Longrightarrow> unvisited automaton ns' \<le> unvisited automaton ns"
  by (rule card_mono) (auto simp: finite_in_range)

lemma unvisited_less:
  "in_range automaton state \<Longrightarrow> state \<notin> set ns \<Longrightarrow> insert state (set ns) \<subseteq> set ns' \<Longrightarrow>
   unvisited automaton ns' < unvisited automaton ns"
  by (rule psubset_card_mono) (auto simp: finite_in_range)

lemma traverse_order_child:
  assumes "in_range automaton state" and "insert state (set ns) \<subseteq> set ns'" and "t \<notin> set ns'"
  shows "((automaton, [t], ns'), (automaton, state # rest, ns)) \<in> traverse_order"
proof (cases "state \<in> set ns")
  case True
  from assms(2) have "unvisited automaton ns' \<le> unvisited automaton ns"
    by (intro unvisited_le) auto
  with True assms(3) show ?thesis by auto
next
  case False
  from unvisited_less[OF assms(1) False assms(2)] show ?thesis by simp
qed

lemma traverse_order_rest:
  assumes "in_range automaton state" and "insert state (set ns) \<subseteq> set ns'"
  shows "((automaton, rest, ns'), (automaton, state # rest, ns)) \<in> traverse_order"
proof (cases "state \<in> set ns")
  case True
  from assms(2) have "unvisited automaton ns' \<le> unvisited automaton ns"
    by (intro unvisited_le) auto
  with True show ?thesis by (auto split: list.splits)
next
  case False
  from unvisited_less[OF assms(1) False assms(2)] show ?thesis by simp
qed

lemma traverse_total: "\<forall>x. traverseEmptyTransitionsRecursive_dom x"
proof (relation traverse_order, goal_cases)
  case 1
  show ?case by simp
next
  case (2 automaton state rest new_states x)
  then show ?case
    by (intro traverse_order_child) (auto simp: set_count_def split: if_splits)
next
  case (3 automaton state rest new_states x x2)
  have "set x \<subseteq> set x2"
  proof (cases "first_outgoing (at automaton state) \<noteq> - 1 \<and>
         set_count x (first_outgoing (at automaton state)) = 0")
    case True
    with 3(4) traverse_mono_dom[OF 3(6)[OF True]] show ?thesis by simp
  next
    case False
    with 3(4) show ?thesis by simp
  qed
  with 3(1,2,5) show ?case
    by (intro traverse_order_child) (auto simp: set_count_def split: if_splits)
next
  case (4 automaton state rest new_states x x2 x2a)
  have "set x \<subseteq> set x2"
  proof (cases "first_outgoing (at automaton state) \<noteq> - 1 \<and>
         set_count x (first_outgoing (at automaton state)) = 0")
    case True
    with 4(4) traverse_mono_dom[OF 4(7)[OF True]] show ?thesis by simp
  next
    case False
    with 4(4) show ?thesis by simp
  qed
  moreover have "set x2 \<subseteq> set x2a"
  proof (cases "second_outgoing (at automaton state) \<noteq> - 1 \<and>
         set_count x2 (second_outgoing (at automaton state)) = 0")
    case True
    with 4(5) traverse_mono_dom[OF 4(6)[OF True]] show ?thesis by simp
  next
    case False
    with 4(5) show ?thesis by simp
  qed
  ultimately show ?case using 4(1,2)
    by (intro traverse_order_rest) auto
next
  case (5 automaton state rest new_states x)
  then show ?case
    by (intro traverse_order_rest) auto
qed

termination traverseEmptyTransitionsRecursive
  by (rule traverse_total)

definition traverseEmptyTransitions :: "State list \<Rightarrow> int list \<Rightarrow> int list option" where
  "traverseEmptyTransitions automaton current_states =
     traverseEmptyTransitionsRecursive automaton current_states []"

text \<open>The inner loop of \<^verbatim>\<open>mat\<close>: the targets of the transitions labelled \<open>c\<close>.\<close>

fun mat_step :: "State list \<Rightarrow> char \<Rightarrow> int list \<Rightarrow> int list \<Rightarrow> int list option" where
  "mat_step automaton c [] new_states = Some new_states"
| "mat_step automaton c (state # rest) new_states =
     (if \<not> in_range automaton state then None
      else mat_step automaton c rest
             (if character (at automaton state) = c
              then set_insert (first_outgoing (at automaton state)) new_states
              else new_states))"

text \<open>The outer loop of \<^verbatim>\<open>mat\<close> over the characters of the string.\<close>

fun mat_loop :: "State list \<Rightarrow> string \<Rightarrow> int list \<Rightarrow> int list option" where
  "mat_loop automaton [] current_states = Some current_states"
| "mat_loop automaton (c # rest) current_states =
     (case mat_step automaton c current_states [] of
        None \<Rightarrow> None
      | Some new_states \<Rightarrow>
          (case traverseEmptyTransitions automaton new_states of
             None \<Rightarrow> None
           | Some current_states' \<Rightarrow> mat_loop automaton rest current_states'))"

definition mat :: "RegularExpression \<Rightarrow> string \<Rightarrow> bool option" where
  "mat re string =
     (let string_to_match = (if string = ''$'' then [] else string) in
      if m_automaton re = [] \<and> string_to_match \<noteq> [] then Some False
      else if m_automaton re = [] then Some True
      else
        (case traverseEmptyTransitions (m_automaton re) [m_initial_state re] of
           None \<Rightarrow> None
         | Some current_states \<Rightarrow>
             (case mat_loop (m_automaton re) string_to_match current_states of
                None \<Rightarrow> None
              | Some final_states \<Rightarrow>
                  Some (set_count final_states (int (length (m_automaton re)) - 1) = 1))))"

text \<open>
  The set \<^verbatim>\<open>current_states\<close> that \<^verbatim>\<open>mat\<close> holds at its \<^verbatim>\<open>return\<close> statement on a non-empty
  automaton: the final reachable set, in which \<^verbatim>\<open>mat\<close> looks up the index of the last
  state.
\<close>

definition reachable_states :: "RegularExpression \<Rightarrow> string \<Rightarrow> int list option" where
  "reachable_states re string =
     (let string_to_match = (if string = ''$'' then [] else string) in
      case traverseEmptyTransitions (m_automaton re) [m_initial_state re] of
        None \<Rightarrow> None
      | Some current_states \<Rightarrow> mat_loop (m_automaton re) string_to_match current_states)"

text \<open>Building an automaton from an expression and matching a string against it,
  as the command shell does with \<^verbatim>\<open>exp\<close> followed by \<^verbatim>\<open>mat\<close>.\<close>

definition matches :: "string \<Rightarrow> string \<Rightarrow> bool option" where
  "matches expression string = (case build expression of None \<Rightarrow> None | Some re \<Rightarrow> mat re string)"

subsection \<open>Renderer: the automaton in dot notation\<close>

text \<open>The control characters and the double quote of the C++ string literals.\<close>

definition TAB :: char where
  "TAB = CHR 0x09"

definition NL :: char where
  "NL = CHR 0x0A"

definition DQ :: char where
  "DQ = CHR 0x22"

text \<open>Decimal digits of a natural number, as \<^verbatim>\<open>operator<<\<close> prints a \<^verbatim>\<open>size_t\<close>.\<close>

fun digits :: "nat \<Rightarrow> string" where
  "digits n =
     (if n < 10 then [char_of (48 + n)]
      else digits (n div 10) @ [char_of (48 + n mod 10)])"

declare digits.simps [simp del]

text \<open>\<^verbatim>\<open>std::to_string(int)\<close>, which is also how \<^verbatim>\<open>operator<<\<close> prints an \<^verbatim>\<open>int\<close>.\<close>

definition to_string :: "int \<Rightarrow> string" where
  "to_string i = (if i < 0 then CHR ''-'' # digits (nat (- i)) else digits (nat i))"

definition dotState :: "int \<Rightarrow> State \<Rightarrow> bool \<Rightarrow> string" where
  "dotState state_number state first_edge =
     TAB # to_string state_number @ '' -> ''
     @ (if first_edge then to_string (first_outgoing state + 1)
        else to_string (second_outgoing state + 1))
     @ '' [label='' @ [DQ]
     @ (if islower (character state) then [character state] else ''&epsilon;'')
     @ [DQ] @ '']'' @ [NL]"

text \<open>The loop of \<^verbatim>\<open>dot\<close> over the states, with its counter \<^verbatim>\<open>state_number\<close> and the
  text \<^verbatim>\<open>output\<close> written so far.\<close>

fun dot_loop :: "int \<Rightarrow> State list \<Rightarrow> string \<Rightarrow> string" where
  "dot_loop state_number [] output = output"
| "dot_loop state_number (state # rest) output =
     (let output1 = (if first_outgoing state \<noteq> - 1
                     then output @ dotState state_number state True else output);
          output2 = (if second_outgoing state \<noteq> - 1
                     then output1 @ dotState state_number state False else output1)
      in dot_loop (state_number + 1) rest output2)"

definition dot :: "RegularExpression \<Rightarrow> string" where
  "dot re =
     dot_loop 1 (m_automaton re)
       (''digraph {'' @ [NL]
        @ [TAB] @ ''rankdir = LR'' @ [NL]
        @ [TAB] @ ''node [shape = circle, style = filled, fillcolor = gray93]'' @ [NL]
        @ [TAB] @ digits (if m_automaton re = [] then 1 else length (m_automaton re))
        @ '' [shape = doublecircle]'' @ [NL]
        @ [TAB] @ ''0 [style = invisible]'' @ [NL]
        @ [TAB] @ ''0 -> '' @ to_string (m_initial_state re + 1) @ [NL])
     @ ''}''"

subsection \<open>The grammar of expressions\<close>

text \<open>
  The grammar stated above the three parser functions:
  \<^verbatim>\<open>expr := term [ | expr ]\<close>, \<^verbatim>\<open>term := fact [ term ]\<close>,
  \<^verbatim>\<open>fact := lett [ * ] | ( expr ) [ * ]\<close>, \<^verbatim>\<open>lett := A | ... | Z | a | ... | z\<close>.
  An expression is accepted by the grammar when \<open>g_expr\<close> holds of it.
\<close>

inductive g_expr :: "string \<Rightarrow> bool"
  and g_term :: "string \<Rightarrow> bool"
  and g_fact :: "string \<Rightarrow> bool"
where
  expr_term: "g_term t \<Longrightarrow> g_expr t"
| expr_alt: "g_term t \<Longrightarrow> g_expr e \<Longrightarrow> g_expr (t @ ''|'' @ e)"
| term_fact: "g_fact f \<Longrightarrow> g_term f"
| term_cat: "g_fact f \<Longrightarrow> g_term t \<Longrightarrow> g_term (f @ t)"
| fact_lett: "isalpha c \<Longrightarrow> g_fact [c]"
| fact_lett_star: "isalpha c \<Longrightarrow> g_fact ([c] @ ''*'')"
| fact_paren: "g_expr e \<Longrightarrow> g_fact (''('' @ e @ '')'')"
| fact_paren_star: "g_expr e \<Longrightarrow> g_fact (''('' @ e @ '')'' @ ''*'')"

text \<open>
  Two properties of a stream that are all the parser needs to build a non-empty
  automaton without reading \<^verbatim>\<open>back()\<close> of an empty vector: the stream starts with a
  parenthesis or a letter, and so does whatever follows each opening parenthesis
  and each bar in it.
\<close>

definition starts_operand :: "string \<Rightarrow> bool" where
  "starts_operand s = (peek s = Some CHR ''('' \<or> peek_is isalpha s)"

fun follows_ok :: "string \<Rightarrow> bool" where
  "follows_ok [] = True"
| "follows_ok (c # cs) =
     ((c = CHR ''('' \<or> c = CHR ''|'' \<longrightarrow> starts_operand cs) \<and> follows_ok cs)"

subsection \<open>The invariant of a sub-automaton\<close>

text \<open>
  A sub-automaton returned by a parser call that started at \<open>n\<close> and left
  \<^verbatim>\<open>next_index\<close> at \<open>n'\<close> occupies the positions \<open>n, ..., n' - 1\<close>. Its start index is
  one of them, its last state is the default state without outgoing edges, and every
  other state has a first edge into these positions and a second edge that is absent
  or into these positions.
\<close>

definition ref_ok :: "int \<Rightarrow> int \<Rightarrow> int \<Rightarrow> bool" where
  "ref_ok lo hi r = (lo \<le> r \<and> r < hi)"

definition inner_ok :: "int \<Rightarrow> int \<Rightarrow> State \<Rightarrow> bool" where
  "inner_ok lo hi st =
     (ref_ok lo hi (first_outgoing st)
      \<and> (second_outgoing st = - 1 \<or> ref_ok lo hi (second_outgoing st)))"

definition seg_ok :: "State list \<Rightarrow> int \<Rightarrow> int \<Rightarrow> int \<Rightarrow> bool" where
  "seg_ok a n n' s =
     (a \<noteq> [] \<and> int (length a) = n' - n \<and> ref_ok n n' s
      \<and> last a = State_default \<and> list_all (inner_ok n n') (butlast a))"

text \<open>
  Every reference of an automaton is absent or a position of the automaton.
\<close>

definition refs_valid :: "State list \<Rightarrow> bool" where
  "refs_valid automaton =
     list_all (\<lambda>st. (first_outgoing st = - 1 \<or> in_range automaton (first_outgoing st))
                  \<and> (second_outgoing st = - 1 \<or> in_range automaton (second_outgoing st)))
       automaton"

text \<open>
  The character of a state is NUL (an epsilon state) or a letter.
\<close>

definition letter_or_nul :: "State \<Rightarrow> bool" where
  "letter_or_nul st = (character st = CHR 0x00 \<or> isalpha (character st))"

text \<open>
  The number of letters, stars and bars of an expression.
\<close>

definition expression_symbols :: "string \<Rightarrow> nat" where
  "expression_symbols e =
     length (filter isalpha e) + length (filter (\<lambda>c. c = CHR ''*'') e)
     + length (filter (\<lambda>c. c = CHR ''|'') e)"

subsection \<open>The lines of the rendered text\<close>

text \<open>
  The text of \<^verbatim>\<open>dot\<close> split at newline characters.
\<close>

fun lines_of :: "string \<Rightarrow> string list" where
  "lines_of [] = [[]]"
| "lines_of (c # cs) =
     (if c = NL then [] # lines_of cs
      else (case lines_of cs of [] \<Rightarrow> [[c]] | l # ls \<Rightarrow> (c # l) # ls))"

text \<open>
  An edge line is a line that contains the arrow \<open>->\<close>.
\<close>

fun has_arrow :: "string \<Rightarrow> bool" where
  "has_arrow [] = False"
| "has_arrow (c # cs) = (take 2 (c # cs) = ''->'' \<or> has_arrow cs)"

definition edge_lines :: "string \<Rightarrow> string list" where
  "edge_lines text = filter has_arrow (lines_of text)"

text \<open>
  The line of an edge from node \<open>source\<close> to node \<open>target\<close> leaving a state with
  character \<open>c\<close>, without its newline.
\<close>

definition edge_text :: "int \<Rightarrow> int \<Rightarrow> char \<Rightarrow> string" where
  "edge_text source target c =
     TAB # to_string source @ '' -> '' @ to_string target
     @ '' [label='' @ [DQ] @ (if islower c then [c] else ''&epsilon;'') @ [DQ] @ '']''"

text \<open>
  The edge lines of the state at a 0-based position, and of a sequence of states
  that starts at a position: nodes are numbered by position plus one.
\<close>

definition state_edges :: "int \<Rightarrow> State \<Rightarrow> string list" where
  "state_edges position state =
     (if first_outgoing state \<noteq> - 1
      then [edge_text (position + 1) (first_outgoing state + 1) (character state)] else [])
     @ (if second_outgoing state \<noteq> - 1
        then [edge_text (position + 1) (second_outgoing state + 1) (character state)] else [])"

fun automaton_edges :: "int \<Rightarrow> State list \<Rightarrow> string list" where
  "automaton_edges position [] = []"
| "automaton_edges position (state # rest) =
     state_edges position state @ automaton_edges (position + 1) rest"

text \<open>
  The number of present (not \<open>-1\<close>) first and second outgoing references.
\<close>

definition present_transitions :: "State list \<Rightarrow> nat" where
  "present_transitions automaton =
     length (filter (\<lambda>st. first_outgoing st \<noteq> - 1) automaton)
     + length (filter (\<lambda>st. second_outgoing st \<noteq> - 1) automaton)"

text \<open>
  The six lines that \<^verbatim>\<open>dot\<close> writes before the loop, each without its newline.
\<close>

definition header_lines :: "RegularExpression \<Rightarrow> string list" where
  "header_lines re =
     [''digraph {'',
      [TAB] @ ''rankdir = LR'',
      [TAB] @ ''node [shape = circle, style = filled, fillcolor = gray93]'',
      [TAB] @ digits (if m_automaton re = [] then 1 else length (m_automaton re))
        @ '' [shape = doublecircle]'',
      [TAB] @ ''0 [style = invisible]'',
      [TAB] @ ''0 -> '' @ to_string (m_initial_state re + 1)]"

abbreviation terminated :: "string list \<Rightarrow> string" where
  "terminated ls \<equiv> concat (map (\<lambda>l. l @ [NL]) ls)"

subsection \<open>Lowercase expressions\<close>

text \<open>
  An expression without uppercase letters, and the streams on which \<open>fact_re\<close>,
  \<open>term_re\<close> and \<open>expr\<close> stop reading: those that do not start with a character the
  function would consume next.
\<close>

definition no_upper :: "string \<Rightarrow> bool" where
  "no_upper e = list_all (\<lambda>c. islower c \<or> \<not> isalpha c) e"

definition stops_fact :: "string \<Rightarrow> bool" where
  "stops_fact rest = (peek rest \<noteq> Some CHR ''*'')"

definition stops_term :: "string \<Rightarrow> bool" where
  "stops_term rest =
     (stops_fact rest \<and> peek rest \<noteq> Some CHR ''('' \<and> \<not> peek_is islower rest)"

definition stops_expr :: "string \<Rightarrow> bool" where
  "stops_expr rest = (stops_term rest \<and> peek rest \<noteq> Some CHR ''|'')"

section \<open>Properties of the builder\<close>

lemma starts_operand_append: "starts_operand a \<Longrightarrow> starts_operand (a @ b)"
  by (cases a) (auto simp: starts_operand_def peek_def peek_is_def)

lemma starts_operand_nonempty: "starts_operand a \<Longrightarrow> a \<noteq> []"
  by (auto simp: starts_operand_def peek_def peek_is_def)

lemma follows_ok_append: "follows_ok a \<Longrightarrow> follows_ok b \<Longrightarrow> follows_ok (a @ b)"
  by (induction a) (auto simp: starts_operand_append)

lemma follows_ok_get: "follows_ok r \<Longrightarrow> follows_ok (get r)"
  by (cases r) (auto simp: get_def)

lemma not_isalpha_ops [simp]:
  "\<not> isalpha CHR ''|''" "\<not> isalpha CHR ''(''" "\<not> isalpha CHR '')''" "\<not> isalpha CHR ''*''"
  "\<not> isalpha CHR 0x00" "\<not> isalpha CHR ''$''"
  by (simp_all add: isalpha_def)

lemma starts_operand_Cons [simp]:
  "starts_operand (c # x) = (c = CHR ''('' \<or> isalpha c)"
  by (simp add: starts_operand_def peek_def peek_is_def)

text \<open>
  Every phrase of the grammar starts with a parenthesis or a letter, has one after
  each opening parenthesis and bar, and contains no NUL character.
\<close>

lemma grammar_shape:
  "g_expr e \<Longrightarrow> starts_operand e \<and> follows_ok e \<and> CHR 0x00 \<notin> set e"
  "g_term t \<Longrightarrow> starts_operand t \<and> follows_ok t \<and> CHR 0x00 \<notin> set t"
  "g_fact f \<Longrightarrow> starts_operand f \<and> follows_ok f \<and> CHR 0x00 \<notin> set f"
proof (induction rule: g_expr_g_term_g_fact.inducts)
  case (expr_alt t e)
  then show ?case
    by (auto simp: starts_operand_append intro!: follows_ok_append)
next
  case (term_cat f t)
  then show ?case
    by (auto simp: starts_operand_append intro!: follows_ok_append)
next
  case (fact_paren e)
  then have "starts_operand (e @ '')'')" and "follows_ok (e @ '')'')"
    by (auto simp: starts_operand_append intro!: follows_ok_append)
  with fact_paren show ?case by simp
next
  case (fact_paren_star e)
  then have "starts_operand (e @ '')*'')" and "follows_ok (e @ '')*'')"
    by (auto simp: starts_operand_append intro!: follows_ok_append)
  with fact_paren_star show ?case by simp
qed auto

lemma inner_ok_mono:
  "inner_ok lo hi st \<Longrightarrow> lo' \<le> lo \<Longrightarrow> hi \<le> hi' \<Longrightarrow> inner_ok lo' hi' st"
  by (auto simp: inner_ok_def ref_ok_def)

lemma list_all_inner_ok_mono:
  "list_all (inner_ok lo hi) xs \<Longrightarrow> lo' \<le> lo \<Longrightarrow> hi \<le> hi' \<Longrightarrow> list_all (inner_ok lo' hi') xs"
  by (auto simp: list_all_iff intro: inner_ok_mono)

lemma seg_ok_le: "seg_ok a n n' s \<Longrightarrow> n < n'"
  by (auto simp: seg_ok_def ref_ok_def)

text \<open>
  Each construction rule of the parser keeps the invariant: a letter, a star around
  a sub-automaton, the concatenation and the alternation of two adjacent ones.
\<close>

lemma seg_letter:
  "seg_ok [\<lparr>character = c, first_outgoing = n + 1, second_outgoing = - 1\<rparr>, State_default] n (n + 2) n"
  by (simp add: seg_ok_def ref_ok_def inner_ok_def)

lemma seg_star:
  assumes "seg_ok a n n' s"
  shows "seg_ok (back_second (back_first a s) (n' + 1)
                 @ [\<lparr>character = CHR 0x00, first_outgoing = s, second_outgoing = n' + 1\<rparr>,
                    State_default]) n (n' + 2) n'"
proof -
  from assms have mono: "list_all (inner_ok n (n' + 2)) (butlast a)"
    by (auto simp: seg_ok_def intro: list_all_inner_ok_mono)
  from assms mono show ?thesis
    by (auto simp: seg_ok_def back_first_def back_second_def butlast_append ref_ok_def
        inner_ok_def State_default_def)
qed

lemma seg_cat:
  assumes "seg_ok a1 n n1 s1" and "seg_ok a2 n1 n2 s2"
  shows "seg_ok (back_first a1 s2 @ a2) n n2 s1"
proof -
  from assms have lt: "n < n1" "n1 < n2" by (auto dest: seg_ok_le)
  with assms have mono: "list_all (inner_ok n n2) (butlast a1)" "list_all (inner_ok n n2) (butlast a2)"
    by (auto simp: seg_ok_def intro: list_all_inner_ok_mono)
  from assms mono lt show ?thesis
    by (auto simp: seg_ok_def back_first_def butlast_append ref_ok_def
        inner_ok_def State_default_def)
qed

lemma seg_alt:
  assumes "seg_ok a1 n n1 s1" and "seg_ok a2 n1 n2 s2"
  shows "seg_ok (back_first a1 (n2 + 1) @ back_first a2 (n2 + 1)
                 @ [\<lparr>character = CHR 0x00, first_outgoing = s1, second_outgoing = s2\<rparr>,
                    State_default]) n (n2 + 2) n2"
proof -
  from assms have lt: "n < n1" "n1 < n2" by (auto dest: seg_ok_le)
  with assms have mono: "list_all (inner_ok n (n2 + 2)) (butlast a1)"
      "list_all (inner_ok n (n2 + 2)) (butlast a2)"
    by (auto simp: seg_ok_def intro: list_all_inner_ok_mono)
  from assms mono lt show ?thesis
    by (auto simp: seg_ok_def back_first_def butlast_append ref_ok_def
        inner_ok_def State_default_def)
qed

lemma follows_ok_after:
  "follows_ok r \<Longrightarrow> peek r = Some CHR ''|'' \<or> peek r = Some CHR ''('' \<Longrightarrow>
   starts_operand (get r) \<and> follows_ok (get r)"
  by (cases r) (auto simp: peek_def get_def)

text \<open>
  On a stream that starts with an operand, and has one after each opening parenthesis
  and bar, every parser function returns a sub-automaton that satisfies the
  invariant, and leaves a stream with the same property. The parser may stop before
  the end of the stream (it does so before an uppercase letter).
\<close>

lemma parse_ok:
  "follows_ok e \<Longrightarrow> starts_operand e \<Longrightarrow>
     (\<exists>a r n' s'. expr e n s = Some (a, r, n', s') \<and> seg_ok a n n' s' \<and> follows_ok r)"
  "follows_ok e \<Longrightarrow> starts_operand e \<Longrightarrow>
     (\<exists>a r n' s'. term_re e n s = Some (a, r, n', s') \<and> seg_ok a n n' s' \<and> follows_ok r)"
  "follows_ok e \<Longrightarrow> starts_operand e \<Longrightarrow>
     (\<exists>a r n' s'. fact_re e n s = Some (a, r, n', s') \<and> seg_ok a n n' s' \<and> follows_ok r)"
proof (induct e n s and e n s and e n s rule: expr_term_re_fact_re.induct)
  case (1 expression next_index start_index)
  from 1(1)[OF 1(3,4)] obtain a1 r1 n1 s1 where
    t: "term_re expression next_index start_index = Some (a1, r1, n1, s1)"
    and ok1: "seg_ok a1 next_index n1 s1" and f1: "follows_ok r1"
    by blast
  show ?case
  proof (cases "peek r1 = Some CHR ''|''")
    case True
    with f1 have nxt: "follows_ok (get r1)" "starts_operand (get r1)"
      using follows_ok_after by blast+
    from 1(2)[OF t refl refl refl True nxt] obtain a2 r2 n2 s2 where
      e: "expr (get r1) n1 s1 = Some (a2, r2, n2, s2)"
      and ok2: "seg_ok a2 n1 n2 s2" and f2: "follows_ok r2"
      by blast
    from ok1 ok2 have ne: "a1 \<noteq> []" "a2 \<noteq> []" by (auto simp: seg_ok_def)
    from t True e ne f2 seg_alt[OF ok1 ok2] show ?thesis
      by (simp add: expr.simps[of expression])
  next
    case False
    with t ok1 f1 show ?thesis by (simp add: expr.simps[of expression])
  qed
next
  case (2 expression next_index start_index)
  from 2(1)[OF 2(3,4)] obtain a1 r1 n1 s1 where
    t: "fact_re expression next_index start_index = Some (a1, r1, n1, s1)"
    and ok1: "seg_ok a1 next_index n1 s1" and f1: "follows_ok r1"
    by blast
  show ?case
  proof (cases "peek r1 = Some CHR ''('' \<or> peek_is islower r1")
    case True
    then have so: "starts_operand r1"
      by (auto simp: starts_operand_def peek_is_def islower_isalpha split: option.splits)
    from 2(2)[OF t refl refl refl True f1 so] obtain a2 r2 n2 s2 where
      e: "term_re r1 n1 s1 = Some (a2, r2, n2, s2)"
      and ok2: "seg_ok a2 n1 n2 s2" and f2: "follows_ok r2"
      by blast
    from ok1 have ne: "a1 \<noteq> []" by (auto simp: seg_ok_def)
    from t True e ne f2 seg_cat[OF ok1 ok2] show ?thesis
      by (simp add: term_re.simps[of expression])
  next
    case False
    with t ok1 f1 show ?thesis by (simp add: term_re.simps[of expression])
  qed
next
  case (3 expression next_index start_index)
  from 3(3) have so: "peek expression = Some CHR ''('' \<or> peek_is isalpha expression"
    by (simp add: starts_operand_def)
  have "\<exists>a r n' s'.
      (if peek expression = Some CHR ''('' then
         (case expr (get expression) next_index start_index of
            None \<Rightarrow> None
          | Some (automaton, expression1, next_index1, start_index1) \<Rightarrow>
              Some (automaton, get expression1, next_index1, start_index1))
       else if peek_is isalpha expression then
         Some ([\<lparr>character = hd expression, first_outgoing = next_index + 1,
                  second_outgoing = - 1\<rparr>, State_default],
               get expression, next_index + 2, next_index)
       else Some ([], expression, next_index, start_index)) = Some (a, r, n', s')
      \<and> seg_ok a next_index n' s' \<and> follows_ok r"
  proof (cases "peek expression = Some CHR ''(''")
    case True
    with 3(2) have nxt: "follows_ok (get expression)" "starts_operand (get expression)"
      using follows_ok_after by blast+
    from 3(1)[OF so True nxt] obtain a1 r1 n1 s1 where
      "expr (get expression) next_index start_index = Some (a1, r1, n1, s1)"
      "seg_ok a1 next_index n1 s1" "follows_ok r1"
      by blast
    with True show ?thesis by (simp add: follows_ok_get)
  next
    case False
    with so 3(2) show ?thesis by (simp add: seg_letter follows_ok_get)
  qed
  then obtain a r n' s' where
    inner: "(if peek expression = Some CHR ''('' then
         (case expr (get expression) next_index start_index of
            None \<Rightarrow> None
          | Some (automaton, expression1, next_index1, start_index1) \<Rightarrow>
              Some (automaton, get expression1, next_index1, start_index1))
       else if peek_is isalpha expression then
         Some ([\<lparr>character = hd expression, first_outgoing = next_index + 1,
                  second_outgoing = - 1\<rparr>, State_default],
               get expression, next_index + 2, next_index)
       else Some ([], expression, next_index, start_index)) = Some (a, r, n', s')"
    and ok: "seg_ok a next_index n' s'" and f: "follows_ok r"
    by blast
  from ok have ne: "a \<noteq> []" by (simp add: seg_ok_def)
  show ?case
  proof (cases "peek r = Some CHR ''*''")
    case True
    from so inner True ne seg_star[OF ok] f show ?thesis
      by (simp add: fact_re.simps[of expression] follows_ok_get del: follows_ok.simps)
  next
    case False
    from so inner False ok f show ?thesis
      by (simp add: fact_re.simps[of expression])
  qed
qed

lemma takeWhile_no_nul: "CHR 0x00 \<notin> set e \<Longrightarrow> takeWhile (\<lambda>c. c \<noteq> CHR 0x00) e = e"
  by (induction e) auto

text \<open>
  The automaton built from an expression of the grammar satisfies the invariant
  with first position 0.
\<close>

lemma build_ok:
  assumes "g_expr e"
  shows "\<exists>a s. build e = Some \<lparr>m_automaton = a, m_initial_state = s\<rparr>
               \<and> seg_ok a 0 (int (length a)) s"
proof -
  from grammar_shape(1)[OF assms] have so: "starts_operand e" and fo: "follows_ok e"
    and nn: "CHR 0x00 \<notin> set e"
    by simp_all
  from parse_ok(1)[OF fo so, of 0 0] obtain a r n' s' where
    e: "expr e 0 0 = Some (a, r, n', s')" and ok: "seg_ok a 0 n' s'"
    by blast
  from ok have "n' = int (length a)" by (simp add: seg_ok_def)
  with e ok show ?thesis by (simp add: build_def takeWhile_no_nul[OF nn])
qed

lemma seg_ok_butlast_nth:
  assumes "seg_ok a n n' s" and "i < length a - 1"
  shows "inner_ok n n' (a ! i)"
proof -
  from assms have "list_all (inner_ok n n') (butlast a)" by (simp add: seg_ok_def)
  moreover from assms have "i < length (butlast a)" by simp
  ultimately have "inner_ok n n' (butlast a ! i)" by (simp add: list_all_length)
  with assms(2) show ?thesis by (simp add: nth_butlast)
qed

lemma seg_ok_refs_valid:
  assumes "seg_ok a 0 (int (length a)) s"
  shows "refs_valid a"
proof -
  from assms have ne: "a \<noteq> []" and la: "last a = State_default"
    and inner: "list_all (inner_ok 0 (int (length a))) (butlast a)"
    by (simp_all add: seg_ok_def)
  have "a = butlast a @ [last a]" using ne by simp
  then have "set a = set (butlast a) \<union> {State_default}"
    using la by (metis Un_insert_right list.simps(15) set_append sup_bot.right_neutral empty_set)
  with inner show ?thesis
    by (auto simp: refs_valid_def list_all_iff inner_ok_def ref_ok_def in_range_def State_default_def)
qed

lemma letter_or_nul_back:
  "automaton \<noteq> [] \<Longrightarrow> list_all letter_or_nul automaton \<Longrightarrow>
   list_all letter_or_nul (back_first automaton v) \<and> list_all letter_or_nul (back_second automaton v)"
proof -
  assume ne: "automaton \<noteq> []" and all: "list_all letter_or_nul automaton"
  from ne all have "list_all letter_or_nul (butlast automaton @ [last automaton])" by simp
  then have "list_all letter_or_nul (butlast automaton)" "letter_or_nul (last automaton)"
    by simp_all
  then show ?thesis
    by (simp add: back_first_def back_second_def letter_or_nul_def)
qed

lemma letter_or_nul_new [simp]:
  "letter_or_nul State_default"
  "letter_or_nul \<lparr>character = CHR 0x00, first_outgoing = f, second_outgoing = g\<rparr>"
  "letter_or_nul \<lparr>character = c, first_outgoing = f, second_outgoing = g\<rparr> = (c = CHR 0x00 \<or> isalpha c)"
  by (simp_all add: letter_or_nul_def State_default_def)

text \<open>
  Whatever the stream, a parser function that returns stores only NUL characters
  and letters in the states.
\<close>

lemma parse_chars:
  "expr e n s = Some (a, r, n', s') \<Longrightarrow> list_all letter_or_nul a"
  "term_re e n s = Some (a, r, n', s') \<Longrightarrow> list_all letter_or_nul a"
  "fact_re e n s = Some (a, r, n', s') \<Longrightarrow> list_all letter_or_nul a"
proof (induct e n s and e n s and e n s arbitrary: a r n' s' and a r n' s' and a r n' s'
    rule: expr_term_re_fact_re.induct)
  case (1 expression next_index start_index)
  from "1.prems" obtain a1 r1 n1 s1 where
    t: "term_re expression next_index start_index = Some (a1, r1, n1, s1)"
    by (auto simp: expr.simps[of expression] split: option.splits)
  note c1 = 1(1)[OF t]
  show ?case
  proof (cases "peek r1 = Some CHR ''|''")
    case True
    with "1.prems" t obtain a2 r2 n2 s2 where
      e: "expr (get r1) n1 s1 = Some (a2, r2, n2, s2)"
      and ne: "a1 \<noteq> []" "a2 \<noteq> []"
      and res: "a = back_first a1 (n2 + 1) @ back_first a2 (n2 + 1)
            @ [\<lparr>character = CHR 0x00, first_outgoing = s1, second_outgoing = s2\<rparr>, State_default]"
      by (auto simp: expr.simps[of expression] split: option.splits if_splits)
    note c2 = 1(2)[OF t refl refl refl True e]
    from letter_or_nul_back[OF ne(1) c1] letter_or_nul_back[OF ne(2) c2] res show ?thesis
      by simp
  next
    case False
    with "1.prems" t c1 show ?thesis by (simp add: expr.simps[of expression])
  qed
next
  case (2 expression next_index start_index)
  from "2.prems" obtain a1 r1 n1 s1 where
    t: "fact_re expression next_index start_index = Some (a1, r1, n1, s1)"
    by (auto simp: term_re.simps[of expression] split: option.splits)
  note c1 = 2(1)[OF t]
  show ?case
  proof (cases "peek r1 = Some CHR ''('' \<or> peek_is islower r1")
    case True
    with "2.prems" t obtain a2 r2 n2 s2 where
      e: "term_re r1 n1 s1 = Some (a2, r2, n2, s2)"
      and ne: "a1 \<noteq> []"
      and res: "a = back_first a1 s2 @ a2"
      by (auto simp: term_re.simps[of expression] split: option.splits if_splits)
    note c2 = 2(2)[OF t refl refl refl True e]
    from letter_or_nul_back[OF ne c1] c2 res show ?thesis by simp
  next
    case False
    with "2.prems" t c1 show ?thesis by (simp add: term_re.simps[of expression])
  qed
next
  case (3 expression next_index start_index)
  show ?case
  proof (cases "peek expression = Some CHR ''('' \<or> peek_is isalpha expression")
    case so: True
    from "3.prems" so obtain a0 r0 n0 s0 where
      inner: "(if peek expression = Some CHR ''('' then
         (case expr (get expression) next_index start_index of
            None \<Rightarrow> None
          | Some (automaton, expression1, next_index1, start_index1) \<Rightarrow>
              Some (automaton, get expression1, next_index1, start_index1))
       else if peek_is isalpha expression then
         Some ([\<lparr>character = hd expression, first_outgoing = next_index + 1,
                  second_outgoing = - 1\<rparr>, State_default],
               get expression, next_index + 2, next_index)
       else Some ([], expression, next_index, start_index)) = Some (a0, r0, n0, s0)"
      by (auto simp: fact_re.simps[of expression] split: option.splits)
    have c0: "list_all letter_or_nul a0"
    proof (cases "peek expression = Some CHR ''(''")
      case True
      with inner obtain r1 where "expr (get expression) next_index start_index = Some (a0, r1, n0, s0)"
        by (auto split: option.splits)
      from 3(1)[OF so True this] show ?thesis .
    next
      case False
      with so have al: "peek_is isalpha expression" by simp
      then have "isalpha (hd expression)"
        by (cases expression) (auto simp: peek_is_def peek_def)
      with inner False al show ?thesis
        by auto
    qed
    show ?thesis
    proof (cases "peek r0 = Some CHR ''*''")
      case True
      with "3.prems" so inner have ne: "a0 \<noteq> []"
        and res: "a = back_second (back_first a0 s0) (n0 + 1)
            @ [\<lparr>character = CHR 0x00, first_outgoing = s0, second_outgoing = n0 + 1\<rparr>, State_default]"
        by (auto simp: fact_re.simps[of expression] split: if_splits)
      from letter_or_nul_back[OF ne c0] have b1: "list_all letter_or_nul (back_first a0 s0)"
        by simp
      have "back_first a0 s0 \<noteq> []" by (simp add: back_first_def)
      from letter_or_nul_back[OF this b1] res show ?thesis
        by simp
    next
      case False
      with "3.prems" so inner c0 show ?thesis
        by (auto simp: fact_re.simps[of expression])
    qed
  next
    case False
    with "3.prems" show ?thesis by (simp add: fact_re.simps[of expression])
  qed
qed

section \<open>Properties of the matcher\<close>

text \<open>
  On an automaton whose references are valid, the closure of a list of valid
  positions never reads outside the automaton.
\<close>

lemma traverse_returns:
  "refs_valid automaton \<Longrightarrow> list_all (in_range automaton) states \<Longrightarrow>
   \<exists>r. traverseEmptyTransitionsRecursive automaton states new_states = Some r"
proof (induct automaton states new_states rule: traverseEmptyTransitionsRecursive.induct)
  case (1 automaton new_states)
  show ?case by simp
next
  case (2 automaton state rest new_states)
  let ?ns1 = "set_insert state new_states"
  let ?f = "first_outgoing (at automaton state)"
  let ?s = "second_outgoing (at automaton state)"
  from "2.prems" have inr: "\<not> \<not> in_range automaton state" and rest: "list_all (in_range automaton) rest"
    by simp_all
  then have "at automaton state \<in> set automaton"
    by (auto simp: at_def in_range_def)
  with "2.prems"(1) have fv: "?f = - 1 \<or> in_range automaton ?f"
    and sv: "?s = - 1 \<or> in_range automaton ?s"
    by (auto simp: refs_valid_def list_all_iff)
  show ?case
  proof (cases "character (at automaton state) = CHR 0x00")
    case True
    obtain ns2 where e1: "(if ?f \<noteq> - 1 \<and> set_count ?ns1 ?f = 0
        then traverseEmptyTransitionsRecursive automaton [?f] ?ns1 else Some ?ns1) = Some ns2"
    proof (cases "?f \<noteq> - 1 \<and> set_count ?ns1 ?f = 0")
      case c: True
      with fv have "list_all (in_range automaton) [?f]" by simp
      from 2(1)[OF inr refl True c "2.prems"(1) this] c that show ?thesis by auto
    next
      case False
      with that show ?thesis by auto
    qed
    obtain ns3 where e2: "(if ?s \<noteq> - 1 \<and> set_count ns2 ?s = 0
        then traverseEmptyTransitionsRecursive automaton [?s] ns2 else Some ns2) = Some ns3"
    proof (cases "?s \<noteq> - 1 \<and> set_count ns2 ?s = 0")
      case c: True
      with sv have "list_all (in_range automaton) [?s]" by simp
      from 2(2)[OF inr refl True e1 c "2.prems"(1) this] c that show ?thesis by auto
    next
      case False
      with that show ?thesis by auto
    qed
    from 2(3)[OF inr refl True e1 e2 "2.prems"(1) rest] obtain r where
      "traverseEmptyTransitionsRecursive automaton rest ns3 = Some r" by blast
    with inr True e1 e2 show ?thesis by (simp add: Let_def)
  next
    case False
    from 2(4)[OF inr refl False "2.prems"(1) rest] inr False show ?thesis
      by (simp add: Let_def)
  qed
qed

text \<open>
  On a non-empty automaton \<^verbatim>\<open>mat\<close> returns the acceptance test of the final reachable set.
\<close>

lemma mat_reachable_states:
  "m_automaton re \<noteq> [] \<Longrightarrow>
   mat re string =
     map_option (\<lambda>final_states. set_count final_states (int (length (m_automaton re)) - 1) = 1)
       (reachable_states re string)"
  by (simp add: mat_def reachable_states_def Let_def split: option.splits)

text \<open>
  The closure inserts a state only after reading it, so every state it adds is a
  position of the automaton.
\<close>

lemma traverse_in_range:
  "traverseEmptyTransitionsRecursive automaton states new_states = Some r \<Longrightarrow>
   set r \<subseteq> set new_states \<union> {i. in_range automaton i}"
proof (induct automaton states new_states arbitrary: r
    rule: traverseEmptyTransitionsRecursive.induct)
  case (1 automaton new_states)
  then show ?case by simp
next
  case (2 automaton state rest new_states)
  let ?ns1 = "set_insert state new_states"
  let ?f = "first_outgoing (at automaton state)"
  let ?s = "second_outgoing (at automaton state)"
  let ?c1 = "?f \<noteq> - 1 \<and> set_count ?ns1 ?f = 0"
  note unfold = traverseEmptyTransitionsRecursive.simps(2)[of automaton state rest new_states]
  note prem = "2.prems"[unfolded unfold]
  from prem have inr: "\<not> \<not> in_range automaton state"
    by (simp del: traverseEmptyTransitionsRecursive.simps split: if_splits)
  then have s0: "set ?ns1 \<subseteq> set new_states \<union> {i. in_range automaton i}" by auto
  show ?case
  proof (cases "character (at automaton state) = CHR 0x00")
    case True
    from prem inr True obtain ns2 ns3 where
      e1: "(if ?c1 then traverseEmptyTransitionsRecursive automaton [?f] ?ns1 else Some ?ns1) = Some ns2"
      and e2: "(if ?s \<noteq> - 1 \<and> set_count ns2 ?s = 0
                then traverseEmptyTransitionsRecursive automaton [?s] ns2 else Some ns2) = Some ns3"
      and e3: "traverseEmptyTransitionsRecursive automaton rest ns3 = Some r"
      by (simp del: traverseEmptyTransitionsRecursive.simps add: Let_def split: option.splits)
    have s1: "set ns2 \<subseteq> set ?ns1 \<union> {i. in_range automaton i}"
    proof (cases ?c1)
      case c: True
      with e1 have "traverseEmptyTransitionsRecursive automaton [?f] ?ns1 = Some ns2" by simp
      from 2(1)[OF inr refl True c this] show ?thesis .
    next
      case False
      with e1 show ?thesis by auto
    qed
    have s2: "set ns3 \<subseteq> set ns2 \<union> {i. in_range automaton i}"
    proof (cases "?s \<noteq> - 1 \<and> set_count ns2 ?s = 0")
      case c: True
      with e2 have "traverseEmptyTransitionsRecursive automaton [?s] ns2 = Some ns3" by simp
      from 2(2)[OF inr refl True e1 c this] show ?thesis .
    next
      case False
      with e2 show ?thesis by auto
    qed
    have s3: "set r \<subseteq> set ns3 \<union> {i. in_range automaton i}"
      by (rule 2(3)[OF inr refl True e1 e2 e3])
    from s0 s1 s2 s3 show ?thesis by blast
  next
    case False
    with prem inr have "traverseEmptyTransitionsRecursive automaton rest ?ns1 = Some r"
      by (simp del: traverseEmptyTransitionsRecursive.simps add: Let_def)
    from 2(4)[OF inr refl False this] s0 show ?thesis by blast
  qed
qed

lemma closure_in_range:
  "traverseEmptyTransitions automaton states = Some r \<Longrightarrow> list_all (in_range automaton) r"
  using traverse_in_range[of automaton states "[]" r]
  by (auto simp: traverseEmptyTransitions_def list_all_iff)

lemma mat_loop_in_range:
  "mat_loop automaton string current = Some final \<Longrightarrow> list_all (in_range automaton) current \<Longrightarrow>
   list_all (in_range automaton) final"
proof (induction string arbitrary: current)
  case Nil
  then show ?case by simp
next
  case (Cons c cs)
  from Cons.prems(1) obtain ns cur' where
    "traverseEmptyTransitions automaton ns = Some cur'"
    and "mat_loop automaton cs cur' = Some final"
    by (auto split: option.splits)
  with Cons.IH closure_in_range show ?case by blast
qed

lemma reachable_states_in_range:
  "reachable_states re string = Some final \<Longrightarrow> list_all (in_range (m_automaton re)) final"
  by (auto simp: reachable_states_def Let_def split: option.splits
      dest: closure_in_range mat_loop_in_range)

text \<open>
  In a built automaton a state with a character other than NUL is not the last one, so
  its first edge leads to a position of the automaton.
\<close>

lemma labelled_state_edge:
  assumes ok: "seg_ok a 0 (int (length a)) s" and inr: "in_range a i"
    and lab: "character (at a i) \<noteq> CHR 0x00"
  shows "in_range a (first_outgoing (at a i))"
proof -
  from ok have ne: "a \<noteq> []" and la: "last a = State_default" by (simp_all add: seg_ok_def)
  from inr have lt: "nat i < length a" by (auto simp: in_range_def)
  have "nat i \<noteq> length a - 1"
  proof
    assume "nat i = length a - 1"
    with ne la have "at a i = State_default" by (simp add: at_def last_conv_nth)
    with lab show False by (simp add: State_default_def)
  qed
  with lt have "nat i < length a - 1" by simp
  from seg_ok_butlast_nth[OF ok this] show ?thesis
    by (simp add: inner_ok_def ref_ok_def in_range_def at_def)
qed

text \<open>
  On a built automaton and a string without NUL characters every step of the
  simulation stays inside the automaton.
\<close>

lemma mat_step_returns:
  assumes ok: "seg_ok a 0 (int (length a)) s" and c: "c \<noteq> CHR 0x00"
  shows "list_all (in_range a) current \<Longrightarrow> list_all (in_range a) acc \<Longrightarrow>
         \<exists>ns. mat_step a c current acc = Some ns \<and> list_all (in_range a) ns"
proof (induction current arbitrary: acc)
  case Nil
  then show ?case by simp
next
  case (Cons state rest)
  from Cons.prems have inr: "in_range a state" and rest: "list_all (in_range a) rest" by simp_all
  show ?case
  proof (cases "character (at a state) = c")
    case True
    with c labelled_state_edge[OF ok inr] have "in_range a (first_outgoing (at a state))" by simp
    with Cons.prems(2) have "list_all (in_range a) (set_insert (first_outgoing (at a state)) acc)"
      by (simp add: list_all_iff)
    from Cons.IH[OF rest this] inr True show ?thesis by simp
  next
    case False
    from Cons.IH[OF rest Cons.prems(2)] inr False show ?thesis by simp
  qed
qed

lemma mat_loop_returns:
  assumes ok: "seg_ok a 0 (int (length a)) s"
  shows "CHR 0x00 \<notin> set string \<Longrightarrow> list_all (in_range a) current \<Longrightarrow>
         \<exists>final. mat_loop a string current = Some final"
proof (induction string arbitrary: current)
  case Nil
  show ?case by simp
next
  case (Cons c cs)
  from Cons.prems(1) have c: "c \<noteq> CHR 0x00" and cs: "CHR 0x00 \<notin> set cs" by auto
  from mat_step_returns[OF ok c Cons.prems(2), of "[]"] obtain ns where
    st: "mat_step a c current [] = Some ns" and nsr: "list_all (in_range a) ns"
    by auto
  from traverse_returns[OF seg_ok_refs_valid[OF ok] nsr, of "[]"] obtain cur' where
    tr: "traverseEmptyTransitions a ns = Some cur'"
    by (auto simp: traverseEmptyTransitions_def)
  from Cons.IH[OF cs closure_in_range[OF tr]] st tr show ?case by simp
qed

lemma reachable_states_returns:
  assumes ok: "seg_ok a 0 (int (length a)) s" and nn: "CHR 0x00 \<notin> set string"
  shows "\<exists>final. reachable_states \<lparr>m_automaton = a, m_initial_state = s\<rparr> string = Some final"
proof -
  from ok have "list_all (in_range a) [s]" by (simp add: seg_ok_def ref_ok_def in_range_def)
  from traverse_returns[OF seg_ok_refs_valid[OF ok] this, of "[]"] obtain cur where
    tr: "traverseEmptyTransitions a [s] = Some cur"
    by (auto simp: traverseEmptyTransitions_def)
  have "\<exists>final. mat_loop a [] cur = Some final" by simp
  moreover from mat_loop_returns[OF ok nn closure_in_range[OF tr]]
  have "\<exists>final. mat_loop a string cur = Some final" .
  ultimately show ?thesis using tr by (simp add: reachable_states_def Let_def)
qed

text \<open>
  In a built automaton the last state is the only state without outgoing edges, so
  a set of positions contains the last index exactly when it contains such a state.
\<close>

lemma accept_test_sound:
  assumes ok: "seg_ok a 0 (int (length a)) s"
    and fin: "list_all (in_range a) final_states"
  shows "(set_count final_states (int (length a) - 1) = 1)
         = (\<exists>i \<in> set final_states.
              first_outgoing (at a i) = - 1 \<and> second_outgoing (at a i) = - 1)"
proof -
  from ok have ne: "a \<noteq> []" and la: "last a = State_default" by (simp_all add: seg_ok_def)
  have sink: "(first_outgoing (at a i) = - 1 \<and> second_outgoing (at a i) = - 1)
              = (i = int (length a) - 1)" if "in_range a i" for i
  proof (cases "nat i = length a - 1")
    case True
    with ne la have "at a i = State_default" by (simp add: at_def last_conv_nth)
    moreover from True that ne have "i = int (length a) - 1"
      by (auto simp: in_range_def)
    ultimately show ?thesis by (simp add: State_default_def)
  next
    case False
    with that have "nat i < length a - 1" by (auto simp: in_range_def)
    from seg_ok_butlast_nth[OF ok this] have "0 \<le> first_outgoing (at a i)"
      by (simp add: inner_ok_def ref_ok_def at_def)
    moreover from False that have "i \<noteq> int (length a) - 1" by (auto simp: in_range_def)
    ultimately show ?thesis by simp
  qed
  from fin have "\<forall>i \<in> set final_states. in_range a i" by (simp add: list_all_iff)
  with sink show ?thesis by (auto simp: set_count_def)
qed

section \<open>Properties of the renderer\<close>

lemma lines_of_nonempty [simp]: "lines_of s \<noteq> []"
  by (induction s) (auto split: list.splits)

lemma lines_of_no_nl: "NL \<notin> set l \<Longrightarrow> lines_of l = [l]"
  by (induction l) auto

lemma lines_of_line: "NL \<notin> set l \<Longrightarrow> lines_of (l @ NL # rest) = l # lines_of rest"
  by (induction l) auto

lemma lines_of_lines:
  "\<forall>l \<in> set ls. NL \<notin> set l \<Longrightarrow>
   lines_of (concat (map (\<lambda>l. l @ [NL]) ls) @ rest) = ls @ lines_of rest"
  by (induction ls) (auto simp: lines_of_line)

lemma has_arrow_arrow: "has_arrow (a @ CHR ''-'' # CHR ''>'' # b)"
  by (induction a) auto

lemma no_gt_no_arrow: "CHR ''>'' \<notin> set s \<Longrightarrow> \<not> has_arrow s"
proof (induction s)
  case Nil
  show ?case by simp
next
  case (Cons c cs)
  then show ?case by (cases cs) auto
qed

lemma digits_chars: "c \<in> set (digits n) \<Longrightarrow> 48 \<le> (of_char c :: nat) \<and> (of_char c :: nat) \<le> 57"
proof (induction n rule: digits.induct)
  case (1 n)
  show ?case
  proof (cases "n < 10")
    case True
    with "1.prems" have "c = char_of (48 + n)" by (simp add: digits.simps[of n])
    with True show ?thesis by simp
  next
    case False
    with "1.prems" have "c \<in> set (digits (n div 10)) \<or> c = char_of (48 + n mod 10)"
      by (auto simp: digits.simps[of n])
    then show ?thesis
    proof
      assume "c \<in> set (digits (n div 10))"
      with 1(1)[OF False] show ?thesis by simp
    next
      assume "c = char_of (48 + n mod 10)"
      moreover have "n mod 10 < 10" by simp
      ultimately show ?thesis by simp
    qed
  qed
qed

lemma digits_plain: "NL \<notin> set (digits n)" "CHR ''>'' \<notin> set (digits n)"
  using digits_chars[of NL n] digits_chars[of "CHR ''>''" n] by (auto simp: NL_def)

lemma to_string_plain: "NL \<notin> set (to_string i)"
  using digits_plain by (simp add: to_string_def NL_def)

lemma dotState_edge_text:
  "dotState n st True = edge_text n (first_outgoing st + 1) (character st) @ [NL]"
  "dotState n st False = edge_text n (second_outgoing st + 1) (character st) @ [NL]"
  by (simp_all add: dotState_def edge_text_def)

text \<open>
  The loop of the renderer appends the edge lines of the states, each followed by a
  newline.
\<close>

lemma dot_loop_edges:
  "dot_loop n sts out = out @ terminated (automaton_edges (n - 1) sts)"
proof (induction sts arbitrary: n out)
  case Nil
  show ?case by simp
next
  case (Cons st sts)
  show ?case
    by (simp add: Cons.IH Let_def state_edges_def dotState_edge_text)
qed

lemma edge_text_plain: "NL \<notin> set (edge_text s t c)"
proof -
  have "islower c \<Longrightarrow> c \<noteq> NL" by (auto simp: islower_def NL_def)
  then show ?thesis
    using to_string_plain[of s] to_string_plain[of t]
    by (auto simp: edge_text_def NL_def TAB_def DQ_def)
qed

lemma edge_text_arrow: "has_arrow (edge_text s t c)"
proof -
  have "edge_text s t c = (TAB # to_string s @ '' '') @ CHR ''-'' # CHR ''>'' #
      ('' '' @ to_string t @ '' [label='' @ [DQ] @ (if islower c then [c] else ''&epsilon;'')
       @ [DQ] @ '']'')"
    by (simp add: edge_text_def)
  then show ?thesis by (simp only: has_arrow_arrow)
qed

lemma automaton_edges_plain: "\<forall>l \<in> set (automaton_edges p sts). NL \<notin> set l \<and> has_arrow l"
  by (induction sts arbitrary: p) (auto simp: state_edges_def edge_text_plain edge_text_arrow)

lemma length_automaton_edges: "length (automaton_edges p sts) = present_transitions sts"
  by (induction sts arbitrary: p) (auto simp: state_edges_def present_transitions_def)

text \<open>
  The rendered text is the header lines and the edge lines, each followed by a
  newline, and a closing brace.
\<close>

lemma dot_lines:
  "dot re = terminated (header_lines re @ automaton_edges 0 (m_automaton re)) @ ''}''"
  by (simp add: dot_def dot_loop_edges header_lines_def)

lemma header_lines_plain: "\<forall>l \<in> set (header_lines re). NL \<notin> set l"
  using digits_plain(1) to_string_plain
  by (auto simp: header_lines_def NL_def TAB_def)

lemma header_lines_arrow:
  "filter has_arrow (header_lines re) = [[TAB] @ ''0 -> '' @ to_string (m_initial_state re + 1)]"
proof -
  have "\<not> has_arrow ([TAB] @ digits k @ '' [shape = doublecircle]'')" for k
    by (rule no_gt_no_arrow) (use digits_plain(2) in \<open>auto simp: TAB_def\<close>)
  moreover have "has_arrow ([TAB] @ ''0 -> '' @ to_string i)" for i
    using has_arrow_arrow[of "[TAB] @ ''0 ''" "'' '' @ to_string i"] by simp
  ultimately show ?thesis
    by (simp add: header_lines_def TAB_def)
qed

section \<open>Grammar derivations of the example expressions\<close>

lemma g_a_star: "g_expr ''a*''"
  using fact_lett_star[of "CHR ''a''"] by (simp add: isalpha_def term_fact expr_term)

lemma g_AB: "g_expr ''AB''"
proof -
  have "g_fact ''A''" "g_fact ''B''" by (rule fact_lett, simp add: isalpha_def)+
  then have "g_term (''A'' @ ''B'')" by (intro term_cat term_fact)
  then show ?thesis by (simp add: expr_term)
qed

section \<open>Worked scenarios\<close>

text \<open>
  C1. For the expression \<open>(a|b)*a\<close> the automaton built by the builder, run through
  the matcher, accepts the strings \<open>a\<close>, \<open>ba\<close> and \<open>abba\<close> and rejects the empty
  string, \<open>b\<close> and \<open>ab\<close>.
\<close>

theorem matches_alt_star_a:
  "matches ''(a|b)*a'' ''a'' = Some True
   \<and> matches ''(a|b)*a'' ''ba'' = Some True
   \<and> matches ''(a|b)*a'' ''abba'' = Some True
   \<and> matches ''(a|b)*a'' '''' = Some False
   \<and> matches ''(a|b)*a'' ''b'' = Some False
   \<and> matches ''(a|b)*a'' ''ab'' = Some False"
  by (intro conjI; code_simp)

section \<open>Invariants of built automata\<close>

text \<open>
  C2. For every expression accepted by the grammar the builder returns a non-empty
  state sequence in which a state has both outgoing references absent exactly when it
  is the last one: the last state has no outgoing edges and no other state is without
  an edge. The acceptance test of the matcher, the membership of index \<^verbatim>\<open>size - 1\<close> in
  the final reachable set, is therefore sound: on every string the matcher returns
  whether the final reachable set contains a state without outgoing edges, and on
  every string without a NUL character the final reachable set is computed without
  reading outside the automaton.
\<close>

theorem accepting_state_last:
  assumes "g_expr e"
  shows "\<exists>re. build e = Some re \<and> m_automaton re \<noteq> []
          \<and> (\<forall>i < length (m_automaton re).
                (first_outgoing (m_automaton re ! i) = - 1
                 \<and> second_outgoing (m_automaton re ! i) = - 1)
                = (i = length (m_automaton re) - 1))
          \<and> (\<forall>string. mat re string
                = map_option
                    (\<lambda>final_states. \<exists>i \<in> set final_states.
                        first_outgoing (at (m_automaton re) i) = - 1
                        \<and> second_outgoing (at (m_automaton re) i) = - 1)
                    (reachable_states re string))
          \<and> (\<forall>string. CHR 0x00 \<notin> set string \<longrightarrow>
                (\<exists>final_states. reachable_states re string = Some final_states))"
proof -
  from build_ok[OF assms] obtain a s where
    b: "build e = Some \<lparr>m_automaton = a, m_initial_state = s\<rparr>"
    and ok: "seg_ok a 0 (int (length a)) s"
    by blast
  let ?re = "\<lparr>m_automaton = a, m_initial_state = s\<rparr>"
  from ok have ne: "a \<noteq> []" and la: "last a = State_default"
    by (simp_all add: seg_ok_def)
  have uniq: "(first_outgoing (a ! i) = - 1 \<and> second_outgoing (a ! i) = - 1) = (i = length a - 1)"
    if "i < length a" for i
  proof (cases "i = length a - 1")
    case True
    with ne la have "a ! i = State_default" by (simp add: last_conv_nth)
    with True show ?thesis by (simp add: State_default_def)
  next
    case False
    with that have "i < length a - 1" by simp
    from seg_ok_butlast_nth[OF ok this] have "0 \<le> first_outgoing (a ! i)"
      by (simp add: inner_ok_def ref_ok_def)
    with False show ?thesis by simp
  qed
  have sound: "mat ?re string
      = map_option
          (\<lambda>final_states. \<exists>i \<in> set final_states.
              first_outgoing (at a i) = - 1 \<and> second_outgoing (at a i) = - 1)
          (reachable_states ?re string)" for string
  proof (cases "reachable_states ?re string")
    case None
    with ne show ?thesis by (simp add: mat_reachable_states)
  next
    case (Some final_states)
    from reachable_states_in_range[OF Some] have "list_all (in_range a) final_states" by simp
    from accept_test_sound[OF ok this] Some ne show ?thesis
      by (simp add: mat_reachable_states)
  qed
  have total: "\<exists>final_states. reachable_states ?re string = Some final_states"
    if "CHR 0x00 \<notin> set string" for string
    by (rule reachable_states_returns[OF ok that])
  from b ne uniq sound total show ?thesis by simp
qed

theorem accepting_state_last_witness:
  "g_expr ''a*''
   \<and> (\<exists>re. build ''a*'' = Some re \<and> m_automaton re \<noteq> []
          \<and> (\<forall>i < length (m_automaton re).
                (first_outgoing (m_automaton re ! i) = - 1
                 \<and> second_outgoing (m_automaton re ! i) = - 1)
                = (i = length (m_automaton re) - 1))
          \<and> (\<exists>final_states. reachable_states re ''aa'' = Some final_states)
          \<and> mat re ''aa''
                = map_option
                    (\<lambda>final_states. \<exists>i \<in> set final_states.
                        first_outgoing (at (m_automaton re) i) = - 1
                        \<and> second_outgoing (at (m_automaton re) i) = - 1)
                    (reachable_states re ''aa'')
          \<and> mat re ''aa'' = Some True)"
proof -
  have "matches ''a*'' ''aa'' = Some True" by code_simp
  then obtain re0 where b0: "build ''a*'' = Some re0" and m0: "mat re0 ''aa'' = Some True"
    by (auto simp: matches_def split: option.splits)
  have nn: "CHR 0x00 \<notin> set ''aa''" by simp
  from accepting_state_last[OF g_a_star] obtain re where
    b: "build ''a*'' = Some re" and ne: "m_automaton re \<noteq> []"
    and uniq: "\<forall>i < length (m_automaton re).
                (first_outgoing (m_automaton re ! i) = - 1
                 \<and> second_outgoing (m_automaton re ! i) = - 1)
                = (i = length (m_automaton re) - 1)"
    and sound: "\<And>string. mat re string
                = map_option
                    (\<lambda>final_states. \<exists>i \<in> set final_states.
                        first_outgoing (at (m_automaton re) i) = - 1
                        \<and> second_outgoing (at (m_automaton re) i) = - 1)
                    (reachable_states re string)"
    and total: "\<And>string. CHR 0x00 \<notin> set string \<Longrightarrow>
                (\<exists>final_states. reachable_states re string = Some final_states)"
    by blast
  from b b0 have "re0 = re" by simp
  with m0 have m: "mat re ''aa'' = Some True" by simp
  from g_a_star b ne uniq total[OF nn] sound[of "''aa''"] m show ?thesis
    by (intro conjI exI[of _ re]) simp_all
qed

text \<open>
  C8. For every expression accepted by the grammar, every outgoing reference held by
  a state of the built automaton is absent or a position of the same state sequence,
  and the initial-state index is a position of the (non-empty) sequence.
\<close>

theorem references_valid:
  assumes "g_expr e"
  shows "\<exists>re. build e = Some re
          \<and> refs_valid (m_automaton re)
          \<and> in_range (m_automaton re) (m_initial_state re)"
proof -
  from build_ok[OF assms] obtain a s where
    b: "build e = Some \<lparr>m_automaton = a, m_initial_state = s\<rparr>"
    and ok: "seg_ok a 0 (int (length a)) s"
    by blast
  from ok have "in_range a s" by (simp add: seg_ok_def ref_ok_def in_range_def)
  with b seg_ok_refs_valid[OF ok] show ?thesis by simp
qed

theorem references_valid_witness:
  "g_expr ''a*''
   \<and> (\<exists>re. build ''a*'' = Some re
          \<and> refs_valid (m_automaton re)
          \<and> in_range (m_automaton re) (m_initial_state re))"
  using g_a_star references_valid[OF g_a_star] by blast

text \<open>
  C5. For every expression accepted by the grammar that contains a star, the
  epsilon-closure computation over the built automaton terminates on every set of
  valid state indices: the input lies in the accessible part of the call relation of
  the recursion, and the call returns a set without reading outside the automaton.
  The example below has the cycle \<open>0 \<rightarrow> 1 \<rightarrow> 0\<close>.
\<close>

theorem closure_terminates:
  assumes "g_expr e" and "CHR ''*'' \<in> set e"
  shows "\<exists>re. build e = Some re
          \<and> (\<forall>states. list_all (in_range (m_automaton re)) states \<longrightarrow>
                traverseEmptyTransitionsRecursive_dom (m_automaton re, states, [])
                \<and> (\<exists>r. traverseEmptyTransitions (m_automaton re) states = Some r))"
proof -
  from build_ok[OF assms(1)] obtain a s where
    b: "build e = Some \<lparr>m_automaton = a, m_initial_state = s\<rparr>"
    and ok: "seg_ok a 0 (int (length a)) s"
    by blast
  have "traverseEmptyTransitionsRecursive_dom (a, states, [])" for states
    using traverse_total by blast
  moreover have "\<exists>r. traverseEmptyTransitions a states = Some r"
    if "list_all (in_range a) states" for states
    unfolding traverseEmptyTransitions_def
    using traverse_returns[OF seg_ok_refs_valid[OF ok] that] .
  ultimately show ?thesis using b by simp
qed

theorem closure_terminates_witness:
  "g_expr ''a*'' \<and> CHR ''*'' \<in> set ''a*''
   \<and> (\<exists>re. build ''a*'' = Some re
          \<and> first_outgoing (m_automaton re ! 1) = 0
          \<and> first_outgoing (m_automaton re ! 0) = 1
          \<and> traverseEmptyTransitionsRecursive_dom (m_automaton re, [2], [])
          \<and> (\<exists>r. traverseEmptyTransitions (m_automaton re) [2] = Some r))"
proof -
  have star: "CHR ''*'' \<in> set ''a*''" by simp
  have b: "build ''a*'' = Some \<lparr>m_automaton =
      [\<lparr>character = CHR ''a'', first_outgoing = 1, second_outgoing = - 1\<rparr>,
       \<lparr>character = CHR 0x00, first_outgoing = 0, second_outgoing = 3\<rparr>,
       \<lparr>character = CHR 0x00, first_outgoing = 0, second_outgoing = 3\<rparr>,
       \<lparr>character = CHR 0x00, first_outgoing = - 1, second_outgoing = - 1\<rparr>],
      m_initial_state = 2\<rparr>"
    by code_simp
  from closure_terminates[OF g_a_star star] obtain re where
    re: "build ''a*'' = Some re"
    and all: "\<And>states. list_all (in_range (m_automaton re)) states \<Longrightarrow>
                traverseEmptyTransitionsRecursive_dom (m_automaton re, states, [])
                \<and> (\<exists>r. traverseEmptyTransitions (m_automaton re) states = Some r)"
    by blast
  from re b have m: "m_automaton re =
      [\<lparr>character = CHR ''a'', first_outgoing = 1, second_outgoing = - 1\<rparr>,
       \<lparr>character = CHR 0x00, first_outgoing = 0, second_outgoing = 3\<rparr>,
       \<lparr>character = CHR 0x00, first_outgoing = 0, second_outgoing = 3\<rparr>,
       \<lparr>character = CHR 0x00, first_outgoing = - 1, second_outgoing = - 1\<rparr>]"
    by auto
  then have "list_all (in_range (m_automaton re)) [2]" by (simp add: in_range_def)
  from all[OF this] m re g_a_star star show ?thesis by auto
qed

section \<open>The empty string and the empty automaton\<close>

text \<open>
  C7. For every automaton the matcher reads the one-character input \<open>$\<close> as the
  empty string, and no state of a built automaton is labelled with \<open>$\<close>.
\<close>

theorem dollar_is_empty_string:
  "mat re ''$'' = mat re ''''
   \<and> (\<forall>e re'. build e = Some re' \<longrightarrow> CHR ''$'' \<notin> character ` set (m_automaton re'))"
proof -
  have "CHR ''$'' \<notin> character ` set (m_automaton re')" if "build e = Some re'" for e re'
  proof -
    from that obtain a r n' s' where
      "expr (takeWhile (\<lambda>c. c \<noteq> CHR 0x00) e) 0 0 = Some (a, r, n', s')" and "m_automaton re' = a"
      by (auto simp: build_def split: option.splits)
    with parse_chars(1) have all: "list_all letter_or_nul (m_automaton re')" by blast
    show ?thesis
    proof
      assume "CHR ''$'' \<in> character ` set (m_automaton re')"
      then obtain st where "st \<in> set (m_automaton re')" and "character st = CHR ''$''"
        by auto
      with all show False by (auto simp: list_all_iff letter_or_nul_def)
    qed
  qed
  then show ?thesis by (simp add: mat_def)
qed

theorem dollar_is_empty_string_witness:
  "\<exists>re. build ''a*'' = Some re \<and> mat re ''$'' = Some True \<and> mat re '''' = Some True
        \<and> CHR ''$'' \<notin> character ` set (m_automaton re)"
proof -
  have "matches ''a*'' '''' = Some True" by code_simp
  then obtain re where b: "build ''a*'' = Some re" and m: "mat re '''' = Some True"
    by (auto simp: matches_def split: option.splits)
  from dollar_is_empty_string[of re] b m show ?thesis by auto
qed

text \<open>
  C6. The automaton built from the empty expression is empty and the matcher accepts
  the empty string on it. It rejects every non-empty string except the one-character
  string \<open>$\<close>, which it reads as the empty string and accepts.
\<close>

theorem empty_automaton_accepts_empty_only:
  "build '''' = Some \<lparr>m_automaton = [], m_initial_state = 0\<rparr>
   \<and> matches '''' '''' = Some True
   \<and> (\<forall>s. s \<noteq> '''' \<and> s \<noteq> ''$'' \<longrightarrow> matches '''' s = Some False)"
  by (simp add: matches_def build_def mat_def expr.simps[of "[]"] term_re.simps[of "[]"]
      fact_re.simps[of "[]"] peek_def peek_is_def)

theorem empty_automaton_accepts_empty_only_witness:
  "''a'' \<noteq> '''' \<and> ''a'' \<noteq> ''$'' \<and> matches '''' ''a'' = Some False"
  using empty_automaton_accepts_empty_only by simp

text \<open>
  The non-empty string \<open>$\<close> is accepted by the automaton of the empty expression.
\<close>

theorem empty_automaton_accepts_dollar:
  "''$'' \<noteq> '''' \<and> matches '''' ''$'' = Some True"
  by (simp add: matches_def build_def mat_def expr.simps[of "[]"] term_re.simps[of "[]"]
      fact_re.simps[of "[]"] peek_def peek_is_def)

section \<open>Uppercase letters\<close>

text \<open>
  C3. Both \<open>A\<close> and \<open>B\<close> are letters of the grammar, but \<open>term_re\<close> continues a
  concatenation only before a parenthesis or a lowercase letter. The automaton built
  from \<open>AB\<close> is the automaton of \<open>A\<close> alone: it rejects \<open>AB\<close> and accepts \<open>A\<close>.
\<close>

theorem uppercase_concatenation_dropped:
  "isalpha CHR ''A'' \<and> isalpha CHR ''B''
   \<and> build ''AB'' = Some \<lparr>m_automaton =
        [\<lparr>character = CHR ''A'', first_outgoing = 1, second_outgoing = - 1\<rparr>,
         \<lparr>character = CHR 0x00, first_outgoing = - 1, second_outgoing = - 1\<rparr>],
        m_initial_state = 0\<rparr>
   \<and> matches ''AB'' ''AB'' = Some False
   \<and> matches ''AB'' ''A'' = Some True"
  by (intro conjI; code_simp)

text \<open>
  C4. The state that the builder labels with the uppercase letter \<open>A\<close> is rendered
  with the epsilon marker, since \<open>dotState\<close> prints the character of lowercase
  states only.
\<close>

theorem uppercase_edge_labelled_epsilon:
  "isalpha CHR ''A''
   \<and> (\<exists>re. build ''A'' = Some re
        \<and> m_automaton re ! 0 = \<lparr>character = CHR ''A'', first_outgoing = 1, second_outgoing = - 1\<rparr>
        \<and> dotState 1 (m_automaton re ! 0) True
            = [TAB] @ ''1 -> 2 [label='' @ [DQ] @ ''&epsilon;'' @ [DQ] @ '']'' @ [NL])"
proof -
  have a: "isalpha CHR ''A''" by (simp add: isalpha_def)
  have b: "build ''A'' = Some \<lparr>m_automaton =
        [\<lparr>character = CHR ''A'', first_outgoing = 1, second_outgoing = - 1\<rparr>,
         \<lparr>character = CHR 0x00, first_outgoing = - 1, second_outgoing = - 1\<rparr>],
        m_initial_state = 0\<rparr>"
    by code_simp
  have d: "dotState 1 \<lparr>character = CHR ''A'', first_outgoing = 1, second_outgoing = - 1\<rparr> True
      = [TAB] @ ''1 -> 2 [label='' @ [DQ] @ ''&epsilon;'' @ [DQ] @ '']'' @ [NL]"
    by code_simp
  from a b d show ?thesis by simp
qed

text \<open>
  C10. The expression \<open>AB\<close> is accepted by the grammar and has two letters, no star
  and no bar, so twice its number of symbols is four; the built automaton has two
  states.
\<close>

theorem uppercase_state_count:
  "g_expr ''AB'' \<and> 2 * expression_symbols ''AB'' = 4
   \<and> (\<exists>re. build ''AB'' = Some re \<and> length (m_automaton re) = 2)"
proof -
  have s: "2 * expression_symbols ''AB'' = 4" by code_simp
  have b: "build ''AB'' = Some \<lparr>m_automaton =
        [\<lparr>character = CHR ''A'', first_outgoing = 1, second_outgoing = - 1\<rparr>,
         \<lparr>character = CHR 0x00, first_outgoing = - 1, second_outgoing = - 1\<rparr>],
        m_initial_state = 0\<rparr>"
    by code_simp
  from g_AB s b show ?thesis by simp
qed

section \<open>The edge lines of the rendered automaton\<close>

text \<open>
  C9. For every automaton the edge lines of the rendered text are the line of the edge
  from the invisible start marker \<open>0\<close> to the initial state, followed by one line per
  present first or second outgoing reference of each state in order; a state at
  0-based position \<open>p\<close> is node \<open>p + 1\<close> and a reference \<open>r\<close> is node \<open>r + 1\<close>. Their
  number is the number of present references plus one.
\<close>

theorem dot_edge_lines:
  "edge_lines (dot re)
     = ([TAB] @ ''0 -> '' @ to_string (m_initial_state re + 1))
       # automaton_edges 0 (m_automaton re)
   \<and> length (edge_lines (dot re)) = present_transitions (m_automaton re) + 1"
proof -
  let ?edges = "automaton_edges 0 (m_automaton re)"
  have "\<forall>l \<in> set (header_lines re). NL \<notin> set l" "\<forall>l \<in> set ?edges. NL \<notin> set l"
    using header_lines_plain automaton_edges_plain by blast+
  then have plain: "\<forall>l \<in> set (header_lines re @ ?edges). NL \<notin> set l"
    by (simp add: ball_Un)
  have last_line: "lines_of ''}'' = [''}'']"
    by (rule lines_of_no_nl) (simp add: NL_def)
  have "lines_of (dot re) = (header_lines re @ ?edges) @ lines_of ''}''"
    by (simp only: dot_lines lines_of_lines[OF plain])
  then have lines: "lines_of (dot re) = header_lines re @ ?edges @ [''}'']"
    by (simp only: last_line append_assoc)
  have "\<forall>l \<in> set ?edges. has_arrow l"
    using automaton_edges_plain by blast
  then have edges: "filter has_arrow ?edges = ?edges"
    by (simp only: filter_id_conv)
  have closing: "filter has_arrow [''}''] = []"
    by simp
  have "edge_lines (dot re)
     = ([TAB] @ ''0 -> '' @ to_string (m_initial_state re + 1)) # ?edges"
    by (simp only: edge_lines_def lines filter_append header_lines_arrow edges closing
        append_Nil2 append_Cons append_Nil)
  then show ?thesis by (simp add: length_automaton_edges)
qed

section \<open>Lowercase and uppercase letters in the parser\<close>

text \<open>
  On an expression of the grammar without uppercase letters the parser follows the
  derivation: each parser function consumes exactly its phrase and returns two states
  per letter, star and bar.
\<close>

lemma expression_symbols_append [simp]:
  "expression_symbols (a @ b) = expression_symbols a + expression_symbols b"
  by (simp add: expression_symbols_def)

lemma expression_symbols_Cons:
  "expression_symbols (c # cs) =
     (if isalpha c \<or> c = CHR ''*'' \<or> c = CHR ''|'' then 1 else 0) + expression_symbols cs"
  by (auto simp: expression_symbols_def)

lemma no_upper_append [simp]: "no_upper (a @ b) = (no_upper a \<and> no_upper b)"
  by (simp add: no_upper_def)

lemma no_upper_Cons [simp]: "no_upper (c # cs) = ((islower c \<or> \<not> isalpha c) \<and> no_upper cs)"
  by (simp add: no_upper_def)

lemma length_back [simp]:
  "a \<noteq> [] \<Longrightarrow> length (back_first a v) = length a"
  "a \<noteq> [] \<Longrightarrow> length (back_second a v) = length a"
  by (simp_all add: back_first_def back_second_def)

lemma back_nonempty [simp]: "back_first a v \<noteq> []" "back_second a v \<noteq> []"
  by (simp_all add: back_first_def back_second_def)

lemma operand_continues:
  assumes "starts_operand t" and "no_upper t"
  shows "peek (t @ rest) = Some CHR ''('' \<or> peek_is islower (t @ rest)"
    and "stops_fact (t @ rest)"
    and "peek (t @ rest) \<noteq> Some CHR ''|''"
proof -
  from assms obtain c cs where t: "t = c # cs" and c: "c = CHR ''('' \<or> islower c"
    by (cases t) (auto dest: starts_operand_nonempty)
  from c have "c \<noteq> CHR ''*''" "c \<noteq> CHR ''|''"
    by (auto simp: islower_def)
  with t c show "peek (t @ rest) = Some CHR ''('' \<or> peek_is islower (t @ rest)"
    and "stops_fact (t @ rest)" and "peek (t @ rest) \<noteq> Some CHR ''|''"
    by (simp_all add: peek_def peek_is_def stops_fact_def)
qed

lemma stops_simps [simp]:
  "stops_expr (CHR '')'' # r)" "stops_term (CHR ''|'' # r)"
  by (simp_all add: stops_expr_def stops_term_def stops_fact_def peek_def peek_is_def islower_def)

text \<open>
  The parser functions on a phrase of the grammar without uppercase letters,
  followed by a stream on which they stop.
\<close>

lemma parse_exact:
  "g_expr e \<Longrightarrow> no_upper e \<Longrightarrow> stops_expr rest \<Longrightarrow>
     \<exists>a n' s'. expr (e @ rest) n s = Some (a, rest, n', s') \<and> a \<noteq> []
        \<and> length a = 2 * expression_symbols e"
  "g_term t \<Longrightarrow> no_upper t \<Longrightarrow> stops_term rest \<Longrightarrow>
     \<exists>a n' s'. term_re (t @ rest) n s = Some (a, rest, n', s') \<and> a \<noteq> []
        \<and> length a = 2 * expression_symbols t"
  "g_fact f \<Longrightarrow> no_upper f \<Longrightarrow> stops_fact rest \<Longrightarrow>
     \<exists>a n' s'. fact_re (f @ rest) n s = Some (a, rest, n', s') \<and> a \<noteq> []
        \<and> length a = 2 * expression_symbols f"
proof (induction arbitrary: rest n s and rest n s and rest n s rule: g_expr_g_term_g_fact.inducts)
  case (expr_term t)
  from expr_term.prems have st: "stops_term rest" and nb: "peek rest \<noteq> Some CHR ''|''"
    by (simp_all add: stops_expr_def)
  from expr_term.IH[OF expr_term.prems(1) st, of n s] obtain a n' s' where
    "term_re (t @ rest) n s = Some (a, rest, n', s')" "a \<noteq> []"
    "length a = 2 * expression_symbols t"
    by blast
  with nb show ?case by (simp add: expr.simps[of "t @ rest"])
next
  case (expr_alt t e)
  from expr_alt.prems have nt: "no_upper t" and ne: "no_upper e" by simp_all
  from expr_alt.IH(1)[OF nt, of "CHR ''|'' # e @ rest" n s] obtain a1 n1 s1 where
    t: "term_re (t @ CHR ''|'' # e @ rest) n s = Some (a1, CHR ''|'' # e @ rest, n1, s1)"
    and a1: "a1 \<noteq> []" "length a1 = 2 * expression_symbols t"
    by auto
  from expr_alt.IH(2)[OF ne expr_alt.prems(2), of n1 s1] obtain a2 n2 s2 where
    e: "expr (e @ rest) n1 s1 = Some (a2, rest, n2, s2)"
    and a2: "a2 \<noteq> []" "length a2 = 2 * expression_symbols e"
    by blast
  from t e a1 a2 show ?case
    by (simp add: expr.simps[of "t @ CHR ''|'' # e @ rest"] peek_def get_def
        expression_symbols_Cons)
next
  case (term_fact f)
  from term_fact.prems have sf: "stops_fact rest"
    and nc: "\<not> (peek rest = Some CHR ''('' \<or> peek_is islower rest)"
    by (simp_all add: stops_term_def)
  from term_fact.IH[OF term_fact.prems(1) sf, of n s] obtain a n' s' where
    "fact_re (f @ rest) n s = Some (a, rest, n', s')" "a \<noteq> []"
    "length a = 2 * expression_symbols f"
    by blast
  with nc show ?case by (simp add: term_re.simps[of "f @ rest"])
next
  case (term_cat f t)
  from term_cat.prems have nf: "no_upper f" and nt: "no_upper t" by simp_all
  from grammar_shape(2)[OF term_cat.hyps(2)] have so: "starts_operand t" by simp
  note cont = operand_continues[OF so nt, of rest]
  from term_cat.IH(1)[OF nf cont(2), of n s] obtain a1 n1 s1 where
    f: "fact_re (f @ t @ rest) n s = Some (a1, t @ rest, n1, s1)"
    and a1: "a1 \<noteq> []" "length a1 = 2 * expression_symbols f"
    by blast
  from term_cat.IH(2)[OF nt term_cat.prems(2), of n1 s1] obtain a2 n2 s2 where
    t: "term_re (t @ rest) n1 s1 = Some (a2, rest, n2, s2)"
    and a2: "a2 \<noteq> []" "length a2 = 2 * expression_symbols t"
    by blast
  from f t a1 a2 cont(1) show ?case
    by (simp add: term_re.simps[of "f @ t @ rest"])
next
  case (fact_lett c)
  then have pk: "peek_is isalpha (c # rest)" "peek (c # rest) \<noteq> Some CHR ''(''"
    "peek (get (c # rest)) \<noteq> Some CHR ''*''"
    by (auto simp: peek_is_def peek_def get_def stops_fact_def)
  from fact_lett.hyps have "expression_symbols [c] = 1"
    by (auto simp: expression_symbols_def)
  with pk show ?case
    by (simp add: fact_re.simps[of "c # rest"] get_def)
next
  case (fact_lett_star c)
  then have pk: "peek_is isalpha (c # CHR ''*'' # rest)"
    "peek (c # CHR ''*'' # rest) \<noteq> Some CHR ''(''"
    "peek (get (c # CHR ''*'' # rest)) = Some CHR ''*''"
    by (auto simp: peek_is_def peek_def get_def)
  from fact_lett_star.hyps have "expression_symbols [c, CHR ''*''] = 2"
    by (auto simp: expression_symbols_def)
  with pk show ?case
    by (simp add: fact_re.simps[of "c # CHR ''*'' # rest"] get_def)
next
  case (fact_paren e)
  from fact_paren.prems have ne: "no_upper e" by simp
  have se: "stops_expr (CHR '')'' # rest)" by simp
  from fact_paren.IH[OF ne se, of n s] obtain a n' s' where
    e: "expr (e @ CHR '')'' # rest) n s = Some (a, CHR '')'' # rest, n', s')"
    and a: "a \<noteq> []" "length a = 2 * expression_symbols e"
    by blast
  have pk: "peek (CHR ''('' # e @ CHR '')'' # rest) = Some CHR ''(''"
    "get (CHR ''('' # e @ CHR '')'' # rest) = e @ CHR '')'' # rest"
    "get (CHR '')'' # rest) = rest"
    by (simp_all add: peek_def get_def)
  from fact_paren.prems(2) have ns: "peek rest \<noteq> Some CHR ''*''"
    by (simp add: stops_fact_def)
  have sy: "expression_symbols (''('' @ e @ '')'') = expression_symbols e"
    by (simp add: expression_symbols_Cons expression_symbols_def)
  have "fact_re (CHR ''('' # e @ CHR '')'' # rest) n s = Some (a, rest, n', s')"
    by (subst fact_re.simps, simp only: pk e) (simp add: ns pk)
  with a sy show ?case by simp
next
  case (fact_paren_star e)
  from fact_paren_star.prems have ne: "no_upper e" by simp
  have se: "stops_expr (CHR '')'' # CHR ''*'' # rest)" by simp
  from fact_paren_star.IH[OF ne se, of n s] obtain a n' s' where
    e: "expr (e @ CHR '')'' # CHR ''*'' # rest) n s = Some (a, CHR '')'' # CHR ''*'' # rest, n', s')"
    and a: "a \<noteq> []" "length a = 2 * expression_symbols e"
    by blast
  have pk: "peek (CHR ''('' # e @ CHR '')'' # CHR ''*'' # rest) = Some CHR ''(''"
    "get (CHR ''('' # e @ CHR '')'' # CHR ''*'' # rest) = e @ CHR '')'' # CHR ''*'' # rest"
    "get (CHR '')'' # CHR ''*'' # rest) = CHR ''*'' # rest"
    "peek (CHR ''*'' # rest) = Some CHR ''*''"
    "get (CHR ''*'' # rest) = rest"
    by (simp_all add: peek_def get_def)
  have sy: "expression_symbols (''('' @ e @ '')'' @ ''*'') = expression_symbols e + 1"
    by (simp add: expression_symbols_Cons expression_symbols_def)
  have "\<exists>a' n'' s''. fact_re (CHR ''('' # e @ CHR '')'' # CHR ''*'' # rest) n s = Some (a', rest, n'', s'')
      \<and> a' \<noteq> [] \<and> length a' = length a + 2"
    by (subst fact_re.simps, simp only: pk e) (simp add: pk a(1))
  with a sy show ?case by auto
qed

lemma lowercase_state_count:
  assumes "g_expr e" and "no_upper e"
  shows "\<exists>re. build e = Some re \<and> length (m_automaton re) = 2 * expression_symbols e"
proof -
  from grammar_shape(1)[OF assms(1)] have nn: "CHR 0x00 \<notin> set e" by simp
  have "stops_expr []"
    by (simp add: stops_expr_def stops_term_def stops_fact_def peek_def peek_is_def)
  from parse_exact(1)[OF assms this, of 0 0] nn show ?thesis
    by (auto simp: build_def takeWhile_no_nul)
qed

text \<open>
  A second letter that is uppercase is never read: the automaton built from two
  letters is then the automaton of the first letter, and it rejects the two-letter
  string.
\<close>

lemma isalpha_not_special:
  "isalpha c \<Longrightarrow> c \<noteq> CHR 0x00 \<and> c \<noteq> CHR ''('' \<and> c \<noteq> CHR '')'' \<and> c \<noteq> CHR ''*'' \<and> c \<noteq> CHR ''|''"
  by auto

lemma build_letter_uppercase:
  assumes "isalpha c1" and "isalpha c2" and "\<not> islower c2"
  shows "build [c1, c2] = Some \<lparr>m_automaton =
           [\<lparr>character = c1, first_outgoing = 1, second_outgoing = - 1\<rparr>, State_default],
           m_initial_state = 0\<rparr>"
proof -
  from assms isalpha_not_special[of c1] isalpha_not_special[of c2]
  have f: "fact_re [c1, c2] 0 0 = Some
      ([\<lparr>character = c1, first_outgoing = 1, second_outgoing = - 1\<rparr>, State_default],
       [c2], 2, 0)"
    by (subst fact_re.simps) (simp add: peek_def peek_is_def get_def)
  from assms isalpha_not_special[of c2] have t: "term_re [c1, c2] 0 0 = Some
      ([\<lparr>character = c1, first_outgoing = 1, second_outgoing = - 1\<rparr>, State_default],
       [c2], 2, 0)"
    by (subst term_re.simps) (simp add: f peek_def peek_is_def)
  from assms isalpha_not_special[of c2] have "expr [c1, c2] 0 0 = Some
      ([\<lparr>character = c1, first_outgoing = 1, second_outgoing = - 1\<rparr>, State_default],
       [c2], 2, 0)"
    by (subst expr.simps) (simp add: t peek_def)
  with assms isalpha_not_special[of c1] isalpha_not_special[of c2] show ?thesis
    by (simp add: build_def)
qed

lemma matches_letter_uppercase:
  assumes "isalpha c1" and "isalpha c2" and "\<not> islower c2"
  shows "matches [c1, c2] [c1, c2] = Some False"
proof -
  from assms isalpha_not_special[of c1] isalpha_not_special[of c2]
  have ne: "c1 \<noteq> CHR 0x00" "c2 \<noteq> CHR 0x00" "[c1, c2] \<noteq> ''$''" by auto
  then show ?thesis
    by (simp add: matches_def build_letter_uppercase[OF assms] mat_def
        traverseEmptyTransitions_def in_range_def at_def set_insert_def set_count_def
        State_default_def)
qed

end
